theory Spec2Isabelle
  imports Complex_Main "HOL-Library.Product_Lexorder"
begin

section \<open>Errors\<close>

text \<open>
  Every exception the modelled code can raise is a value.  \<open>HTTPException c e\<close> is
  \<^verbatim>\<open>HTTPException(status_code=c, detail=str(e))\<close>: the detail text is represented by the
  exception it was rendered from.
\<close>

datatype error =
    ValueError
  | OverflowError
  | IndexError
  | MultipleResultsFound
  | NetworkError string
  | Exception string
  | HTTPException nat error

section \<open>Calendar dates\<close>

text \<open>
  A date text such as \<^verbatim>\<open>"2024-01-06"\<close> is represented by its three numeric fields:
  the triple \<open>(y, m, d)\<close> stands for the text \<^verbatim>\<open>f"{y}-{m:02d}-{d:02d}"\<close>.  Distinct triples
  stand for distinct texts, and for four-digit years the order of the texts as Python strings
  is the lexicographic order of the triples, which is the order of \<^typ>\<open>int \<times> nat \<times> nat\<close>.
  \<^verbatim>\<open>datetime.fromisoformat\<close> accepts such a text exactly when the year has four digits and the
  fields name a day of the calendar.
\<close>

type_synonym iso_date = "int \<times> nat \<times> nat"

definition is_leap :: "int \<Rightarrow> bool" where
  "is_leap y \<longleftrightarrow> y mod 4 = 0 \<and> (y mod 100 \<noteq> 0 \<or> y mod 400 = 0)"

definition days_in_month :: "int \<Rightarrow> nat \<Rightarrow> nat" where
  "days_in_month y m =
     (if m = 2 then (if is_leap y then 29 else 28)
      else if m = 4 \<or> m = 6 \<or> m = 9 \<or> m = 11 then 30 else 31)"

definition days_before_year :: "int \<Rightarrow> int" where
  "days_before_year y = (y - 1) * 365 + (y - 1) div 4 - (y - 1) div 100 + (y - 1) div 400"

definition days_before_month :: "int \<Rightarrow> nat \<Rightarrow> nat" where
  "days_before_month y m = sum_list (map (days_in_month y) [1..<m])"

text \<open>The calendar days Python's \<^verbatim>\<open>datetime(y, m, d)\<close> accepts (\<^verbatim>\<open>MINYEAR = 1\<close>, \<^verbatim>\<open>MAXYEAR = 9999\<close>).\<close>

definition valid_ymd :: "iso_date \<Rightarrow> bool" where
  "valid_ymd dt =
     (case dt of (y, m, d) \<Rightarrow>
        1 \<le> y \<and> y \<le> 9999 \<and> 1 \<le> m \<and> m \<le> 12 \<and> 1 \<le> d \<and> d \<le> days_in_month y m)"

definition datetime_ymd :: "int \<Rightarrow> nat \<Rightarrow> nat \<Rightarrow> error + iso_date" where
  "datetime_ymd y m d = (if valid_ymd (y, m, d) then Inr (y, m, d) else Inl ValueError)"

definition fromisoformat :: "iso_date \<Rightarrow> error + iso_date" where
  "fromisoformat dt = (if 1000 \<le> fst dt \<and> valid_ymd dt then Inr dt else Inl ValueError)"

text \<open>\<^verbatim>\<open>date.toordinal()\<close>: the number of the day, 0001-01-01 being day 1.\<close>

definition toordinal :: "iso_date \<Rightarrow> int" where
  "toordinal dt =
     (case dt of (y, m, d) \<Rightarrow> days_before_year y + int (days_before_month y m) + int d)"

text \<open>\<^verbatim>\<open>(a - b).days\<close> for two dates at midnight.\<close>

definition days_between :: "iso_date \<Rightarrow> iso_date \<Rightarrow> int" where
  "days_between a b = toordinal a - toordinal b"

text \<open>
  \<^verbatim>\<open>d - timedelta(days=1)\<close>, and \<^verbatim>\<open>d - timedelta(days=i)\<close> as \<open>i\<close> single steps; stepping
  before 0001-01-01 raises \<^verbatim>\<open>OverflowError\<close>.
\<close>

definition prev_day :: "iso_date \<Rightarrow> error + iso_date" where
  "prev_day dt =
     (case dt of (y, m, d) \<Rightarrow>
        if 1 < d then Inr (y, m, d - 1)
        else if 1 < m then Inr (y, m - 1, days_in_month y (m - 1))
        else if 1 < y then Inr (y - 1, 12, 31)
        else Inl OverflowError)"

fun minus_days :: "iso_date \<Rightarrow> nat \<Rightarrow> error + iso_date" where
  "minus_days dt 0 = Inr dt"
| "minus_days dt (Suc i) =
     (case prev_day dt of Inl e \<Rightarrow> Inl e | Inr dt' \<Rightarrow> minus_days dt' i)"

section \<open>Streaks (routes.py, get\_yearbook\_stats)\<close>

text \<open>One entry of \<^verbatim>\<open>dailyContributions\<close>: \<^verbatim>\<open>{"date": ..., "count": ...}\<close>.\<close>

record daily =
  date :: iso_date
  count :: int

definition active_days :: "daily list \<Rightarrow> daily list" where
  "active_days ds = filter (\<lambda>d. count d > 0) ds"

text \<open>
  The loop over \<^verbatim>\<open>sorted(active_days, key=lambda x: x["date"])\<close> with its three variables
  \<^verbatim>\<open>longest_streak\<close>, \<^verbatim>\<open>streak\<close> and \<^verbatim>\<open>prev_date\<close>; a date text that does not parse
  raises inside the loop.
\<close>

fun longest_loop :: "daily list \<Rightarrow> nat \<Rightarrow> nat \<Rightarrow> iso_date option \<Rightarrow> error + nat \<times> nat" where
  "longest_loop [] longest streak prev_date = Inr (longest, streak)"
| "longest_loop (d # ds) longest streak prev_date =
     (case fromisoformat (date d) of
        Inl e \<Rightarrow> Inl e
      | Inr cur_date \<Rightarrow>
          if (case prev_date of None \<Rightarrow> False | Some p \<Rightarrow> days_between cur_date p = 1)
          then longest_loop ds longest (streak + 1) (Some cur_date)
          else longest_loop ds (max longest streak) 1 (Some cur_date))"

definition longest_streak :: "daily list \<Rightarrow> error + nat" where
  "longest_streak ds =
     (case longest_loop (sort_key date (active_days ds)) 0 0 None of
        Inl e \<Rightarrow> Inl e
      | Inr (longest, streak) \<Rightarrow> Inr (max longest streak))"

text \<open>
  The loop \<^verbatim>\<open>for i in range(365)\<close> walking back from \<^verbatim>\<open>end_d\<close>; the list argument is the
  rest of the range, \<open>cs\<close> is \<^verbatim>\<open>current_streak\<close>.
\<close>

fun current_loop :: "iso_date \<Rightarrow> iso_date set \<Rightarrow> nat list \<Rightarrow> nat \<Rightarrow> error + nat" where
  "current_loop end_d active_dates [] cs = Inr cs"
| "current_loop end_d active_dates (i # rest) cs =
     (case minus_days end_d i of
        Inl e \<Rightarrow> Inl e
      | Inr d \<Rightarrow>
          if d \<in> active_dates then current_loop end_d active_dates rest (cs + 1)
          else if i > 0 then Inr cs
          else current_loop end_d active_dates rest cs)"

definition current_streak_from :: "iso_date \<Rightarrow> daily list \<Rightarrow> error + nat" where
  "current_streak_from end_d ds =
     current_loop end_d (set (map date (active_days ds))) [0..<365] 0"

definition current_streak :: "int \<Rightarrow> daily list \<Rightarrow> error + nat" where
  "current_streak year ds =
     (case datetime_ymd year 12 31 of
        Inl e \<Rightarrow> Inl e
      | Inr end_d \<Rightarrow> current_streak_from end_d ds)"

text \<open>The streak block of the request handler: longest streak, current streak, active days.\<close>

definition calculate_streaks :: "int \<Rightarrow> daily list \<Rightarrow> error + nat \<times> nat \<times> nat" where
  "calculate_streaks year ds =
     (case longest_streak ds of
        Inl e \<Rightarrow> Inl e
      | Inr longest \<Rightarrow>
          (case current_streak year ds of
             Inl e \<Rightarrow> Inl e
           | Inr cur \<Rightarrow> Inr (longest, cur, length (active_days ds))))"

definition scenario_days :: "daily list" where
  "scenario_days =
     [\<lparr>date = (2024, 1, 1), count = 1\<rparr>, \<lparr>date = (2024, 1, 2), count = 1\<rparr>,
      \<lparr>date = (2024, 1, 3), count = 0\<rparr>, \<lparr>date = (2024, 1, 4), count = 1\<rparr>,
      \<lparr>date = (2024, 1, 5), count = 1\<rparr>, \<lparr>date = (2024, 1, 6), count = 1\<rparr>]"


definition year_end_days :: "daily list" where
  "year_end_days =
     [\<lparr>date = (2024, 12, 30), count = 2\<rparr>, \<lparr>date = (2024, 6, 1), count = 1\<rparr>,
      \<lparr>date = (2024, 12, 31), count = 1\<rparr>, \<lparr>date = (2024, 12, 29), count = 4\<rparr>,
      \<lparr>date = (2024, 12, 27), count = 3\<rparr>, \<lparr>date = (2024, 12, 28), count = 0\<rparr>]"

subsection \<open>Specification-side notions for the streaks\<close>

text \<open>
  The runs of a sequence of day numbers, in the words of the specification: a gap of exactly
  one day continues the run, any other gap starts a new run; the last run is kept.  The
  longest run is the maximum of their lengths (0 when there is no run).
\<close>

fun runs :: "int list \<Rightarrow> int list list" where
  "runs [] = []"
| "runs [x] = [[x]]"
| "runs (x # y # zs) =
     (if y - x = 1
      then (case runs (y # zs) of [] \<Rightarrow> [[x]] | r # rs \<Rightarrow> (x # r) # rs)
      else [x] # runs (y # zs))"

definition longest_run :: "int list \<Rightarrow> nat" where
  "longest_run xs = foldr max (map length (runs xs)) 0"

text \<open>The day \<open>i\<close> days before \<open>end_d\<close> exists and is one of the active dates.\<close>

definition hit :: "iso_date \<Rightarrow> iso_date set \<Rightarrow> nat \<Rightarrow> bool" where
  "hit end_d active_dates i =
     (case minus_days end_d i of Inl e \<Rightarrow> False | Inr d \<Rightarrow> d \<in> active_dates)"

text \<open>The longest-streak loop on day numbers, once every date text has parsed.\<close>

fun streak_scan :: "int list \<Rightarrow> nat \<Rightarrow> nat \<Rightarrow> int option \<Rightarrow> nat \<times> nat" where
  "streak_scan [] longest streak prev = (longest, streak)"
| "streak_scan (x # xs) longest streak prev =
     (if (case prev of None \<Rightarrow> False | Some p \<Rightarrow> x - p = 1)
      then streak_scan xs longest (streak + 1) (Some x)
      else streak_scan xs (max longest streak) 1 (Some x))"

section \<open>Upstream data (services/github.py)\<close>

text \<open>
  A timestamp text such as \<^verbatim>\<open>"2024-03-01T12:00:00Z"\<close> is represented by its date and its
  time of day in microseconds; the first ten characters of the text are the date, and naive
  datetimes compare as these pairs do.
\<close>

type_synonym datetime = "iso_date \<times> int"

definition fromisoformat_dt :: "datetime \<Rightarrow> error + datetime" where
  "fromisoformat_dt ts =
     (case fromisoformat (fst ts) of
        Inl e \<Rightarrow> Inl e
      | Inr d \<Rightarrow>
          if 0 \<le> snd ts \<and> snd ts < 86400000000 then Inr (d, snd ts) else Inl ValueError)"

text \<open>
  The JSON the two endpoints answer with.  Responses are taken to have the shape the
  requests ask for: an event object carries \<^verbatim>\<open>type\<close>, \<^verbatim>\<open>created_at\<close> and \<^verbatim>\<open>repo.name\<close>,
  its \<^verbatim>\<open>payload.size\<close> may be absent; the GraphQL \<^verbatim>\<open>viewer\<close> carries every selected field.
\<close>

record event =
  ev_type :: string
  created_at :: datetime
  repo_name :: string
  payload_size :: "int option"

record events_response =
  status_code :: nat
  events_json :: "event list"

record lang_edge =
  edge_size :: nat
  node_name :: string
  node_color :: "string option"

record repo_node =
  node_isPrivate :: bool
  node_languages :: "lang_edge list"

record calendar_day =
  day_date :: iso_date
  contributionCount :: int

record repo_details =
  fullName :: "string option"
  stars :: int
  forks :: int
  language :: "string option"
  description :: "string option"
  url :: "string option"

record commit_item =
  ci_name :: "string option"
  ci_isPrivate :: bool
  ci_details :: repo_details
  ci_totalCount :: int

record org =
  login :: string
  org_avatarUrl :: string

record viewer =
  v_login :: "string option"
  v_avatarUrl :: "string option"
  v_bio :: "string option"
  v_company :: "string option"
  v_location :: "string option"
  v_followers :: int
  v_following :: int
  v_repos_totalCount :: int
  v_repos_nodes :: "repo_node list"
  v_totalCommitContributions :: int
  v_totalPullRequestContributions :: int
  v_totalPullRequestReviewContributions :: int
  v_totalIssueContributions :: int
  v_calendar_totalContributions :: int
  v_calendar_weeks :: "calendar_day list list"
  v_commitContributionsByRepository :: "commit_item list"
  v_organizations :: "org list"

datatype graphql_result = GraphqlErrors string | GraphqlData viewer

text \<open>
  The network: what each HTTP request of the module is answered with (or the exception the
  client raises).  \<open>post_probe t\<close> is the probe query sent with bearer token \<open>t\<close>, answered
  by the \<^verbatim>\<open>pushedAt\<close> values of \<^verbatim>\<open>viewer.repositories.nodes\<close>; \<open>get_events u n\<close> is
  \<^verbatim>\<open>GET /users/{u}/events/public?per_page={n}\<close>; \<open>post_query t a b\<close> is the contribution
  query sent with token \<open>t\<close> and the variables \<^verbatim>\<open>from\<close>, \<^verbatim>\<open>to\<close>.  No request of the
  authenticated path carries the user name.
\<close>

record upstream =
  post_probe :: "string \<Rightarrow> error + datetime option list"
  get_events :: "string \<Rightarrow> nat \<Rightarrow> error + events_response"
  post_query :: "string \<Rightarrow> iso_date \<Rightarrow> iso_date \<Rightarrow> error + graphql_result"

text \<open>
  The dict a fetch returns, one field per key.  A field is \<open>None\<close> when the key is absent
  (for the nullable texts also when the value is null: the consumer reads them with
  \<^verbatim>\<open>data.get(key)\<close> and cannot tell the two apart).
\<close>

record repo_contribution =
  repo :: "string option"
  rc_count :: int
  rc_isPrivate :: bool
  rc_details :: "repo_details option"

record lang_entry =
  name :: string
  color :: "string option"
  size_bytes :: nat
  repoCount :: nat

record lang_stat = lang_entry +
  percentage :: real

record raw_activity =
  username :: "string option"
  avatarUrl :: "string option"
  bio :: "string option"
  company :: "string option"
  location :: "string option"
  followers :: "int option"
  following :: "int option"
  publicRepos :: "int option"
  privateRepos :: "int option"
  totalRepos :: "int option"
  totalContributions :: "int option"
  totalCommits :: "int option"
  pullRequests :: "int option"
  pullRequestReviews :: "int option"
  issues :: "int option"
  dailyContributions :: "daily list option"
  repositoryContributions :: "repo_contribution list option"
  languageStats :: "lang_stat list option"
  organizations :: "org list option"

text \<open>\<^verbatim>\<open>sorted(xs, key=key, reverse=True)\<close>: descending, equal keys in their original order.\<close>

definition sorted_desc :: "('a \<Rightarrow> 'k::linorder) \<Rightarrow> 'a list \<Rightarrow> 'a list" where
  "sorted_desc key xs = rev (sort_key key (rev xs))"

subsection \<open>fetch\_user\_latest\_push\_time\<close>

definition fetch_user_latest_push_time ::
  "upstream \<Rightarrow> string \<Rightarrow> string option \<Rightarrow> error + datetime option" where
  "fetch_user_latest_push_time up user token =
     (if token \<noteq> None \<and> token \<noteq> Some []
      then (case post_probe up (case token of Some t \<Rightarrow> t | None \<Rightarrow> []) of
              Inl e \<Rightarrow> Inl e
            | Inr repos \<Rightarrow>
                (case repos of
                   Some pushedAt # _ \<Rightarrow>
                     (case fromisoformat_dt pushedAt of Inl e \<Rightarrow> Inl e | Inr t \<Rightarrow> Inr (Some t))
                 | _ \<Rightarrow> Inr None))
      else (case get_events up user 1 of
              Inl e \<Rightarrow> Inl e
            | Inr response \<Rightarrow>
                if status_code response = 200
                then (case events_json response of
                        ev # _ \<Rightarrow>
                          (case fromisoformat_dt (created_at ev) of
                             Inl e \<Rightarrow> Inl e
                           | Inr t \<Rightarrow> Inr (Some t))
                      | [] \<Rightarrow> Inr None)
                else Inr None))"

subsection \<open>fetch\_with\_graphql\<close>

text \<open>
  \<^verbatim>\<open>lang_map\<close> is a dict in insertion order: a new language is appended, a known one is
  updated in place.
\<close>

fun lang_add :: "(string \<times> lang_entry) list \<Rightarrow> lang_edge \<Rightarrow> (string \<times> lang_entry) list" where
  "lang_add [] edge =
     [(node_name edge,
       \<lparr>name = node_name edge, color = node_color edge,
        size_bytes = 0 + edge_size edge, repoCount = 0 + 1\<rparr>)]"
| "lang_add ((k, l) # m) edge =
     (if k = node_name edge
      then (k, l\<lparr>size_bytes := size_bytes l + edge_size edge, repoCount := repoCount l + 1\<rparr>) # m
      else (k, l) # lang_add m edge)"

definition lang_map :: "repo_node list \<Rightarrow> (string \<times> lang_entry) list" where
  "lang_map all_repos = foldl lang_add [] (concat (map node_languages all_repos))"

definition total_size :: "(string \<times> lang_entry) list \<Rightarrow> nat" where
  "total_size m = (let t = sum_list (map (\<lambda>kl. size_bytes (snd kl)) m) in if t = 0 then 1 else t)"

definition language_stats :: "repo_node list \<Rightarrow> lang_stat list" where
  "language_stats all_repos =
     (let m = lang_map all_repos in
      sorted_desc size_bytes
        (map (\<lambda>kl. \<lparr>name = name (snd kl), color = color (snd kl),
                    size_bytes = size_bytes (snd kl), repoCount = repoCount (snd kl),
                    percentage = real (size_bytes (snd kl)) / real (total_size m) * 100\<rparr>) m))"

definition daily_of_calendar :: "calendar_day list list \<Rightarrow> daily list" where
  "daily_of_calendar weeks =
     concat (map (map (\<lambda>day. \<lparr>date = day_date day, count = contributionCount day\<rparr>)) weeks)"

definition repo_contributions_of :: "commit_item list \<Rightarrow> repo_contribution list" where
  "repo_contributions_of items =
     map (\<lambda>item. \<lparr>repo = ci_name item, rc_count = ci_totalCount item,
                  rc_isPrivate = ci_isPrivate item, rc_details = Some (ci_details item)\<rparr>) items"

definition fetch_with_graphql ::
  "upstream \<Rightarrow> string \<Rightarrow> iso_date \<Rightarrow> iso_date \<Rightarrow> string \<Rightarrow> error + raw_activity" where
  "fetch_with_graphql up user start_date end_date token =
     (case fromisoformat start_date of
        Inl e \<Rightarrow> Inl e
      | Inr start \<Rightarrow>
     (case fromisoformat end_date of
        Inl e \<Rightarrow> Inl e
      | Inr end_d \<Rightarrow>
     (case post_query up token start end_d of
        Inl e \<Rightarrow> Inl e
      | Inr (GraphqlErrors message) \<Rightarrow> Inl (Exception message)
      | Inr (GraphqlData v) \<Rightarrow>
          Inr \<lparr>username = v_login v,
               avatarUrl = v_avatarUrl v,
               bio = v_bio v,
               company = v_company v,
               location = v_location v,
               followers = Some (v_followers v),
               following = Some (v_following v),
               publicRepos = Some (int (length (filter (\<lambda>r. \<not> node_isPrivate r) (v_repos_nodes v)))),
               privateRepos = Some (int (length (filter node_isPrivate (v_repos_nodes v)))),
               totalRepos = Some (v_repos_totalCount v),
               totalContributions = Some (v_calendar_totalContributions v),
               totalCommits = Some (v_totalCommitContributions v),
               pullRequests = Some (v_totalPullRequestContributions v),
               pullRequestReviews = Some (v_totalPullRequestReviewContributions v),
               issues = Some (v_totalIssueContributions v),
               dailyContributions = Some (daily_of_calendar (v_calendar_weeks v)),
               repositoryContributions =
                 Some (sorted_desc rc_count
                         (repo_contributions_of (v_commitContributionsByRepository v))),
               languageStats = Some (language_stats (v_repos_nodes v)),
               organizations = Some (v_organizations v)\<rparr>)))"

subsection \<open>fetch\_with\_rest\_api\<close>

text \<open>\<^verbatim>\<open>s.split(c)\<close> for a one-character separator.\<close>

fun str_split :: "char \<Rightarrow> string \<Rightarrow> string list" where
  "str_split c [] = [[]]"
| "str_split c (x # xs) =
     (if x = c then [] # str_split c xs
      else (case str_split c xs of [] \<Rightarrow> [[x]] | r # rs \<Rightarrow> (x # r) # rs))"

text \<open>\<^verbatim>\<open>m[k] = m.get(k, 0) + c\<close> on a dict in insertion order.\<close>

fun dict_add :: "('k \<times> int) list \<Rightarrow> 'k \<Rightarrow> int \<Rightarrow> ('k \<times> int) list" where
  "dict_add [] k c = [(k, 0 + c)]"
| "dict_add ((k', v) # m) k c =
     (if k' = k then (k', v + c) # m else (k', v) # dict_add m k c)"

function rest_loop ::
  "event list \<Rightarrow> datetime \<Rightarrow> datetime \<Rightarrow> (iso_date \<times> int) list \<Rightarrow> (string \<times> int) list
     \<Rightarrow> error + (iso_date \<times> int) list \<times> (string \<times> int) list" where
  "rest_loop [] start end_dt daily_map repo_map = Inr (daily_map, repo_map)"
| "rest_loop (ev # evs) start end_dt daily_map repo_map =
     (if ev_type ev \<noteq> ''PushEvent'' then rest_loop evs start end_dt daily_map repo_map
      else
        (case fromisoformat_dt (created_at ev) of
           Inl e \<Rightarrow> Inl e
         | Inr event_date \<Rightarrow>
             if \<not> (start \<le> event_date \<and> event_date \<le> end_dt)
             then rest_loop evs start end_dt daily_map repo_map
             else
               (case str_split (CHR ''/'') (repo_name ev) of
                  _ # repo_nm # _ \<Rightarrow>
                    (let date_str = fst (created_at ev);
                         commit_count = (case payload_size ev of None \<Rightarrow> 0 | Some n \<Rightarrow> n)
                     in rest_loop evs start end_dt
                          (dict_add daily_map date_str commit_count)
                          (dict_add repo_map repo_nm commit_count))
                | _ \<Rightarrow> Inl IndexError)))"
  by pat_completeness auto
termination
  by (relation "measure (\<lambda>(evs, start, end_dt, daily_map, repo_map). length evs)") auto

definition fetch_with_rest_api ::
  "upstream \<Rightarrow> string \<Rightarrow> iso_date \<Rightarrow> iso_date \<Rightarrow> error + raw_activity" where
  "fetch_with_rest_api up user start_date end_date =
     (case get_events up user 100 of
        Inl e \<Rightarrow> Inl e
      | Inr events_response \<Rightarrow>
          if status_code events_response = 404
          then Inl (Exception (''User '' @ [CHR 0x27] @ user @ [CHR 0x27] @ '' not found''))
          else
     (case fromisoformat start_date of
        Inl e \<Rightarrow> Inl e
      | Inr start \<Rightarrow>
     (case fromisoformat end_date of
        Inl e \<Rightarrow> Inl e
      | Inr end_d \<Rightarrow>
     (case rest_loop (events_json events_response) (start, 0) (end_d, 86399000000) [] [] of
        Inl e \<Rightarrow> Inl e
      | Inr (daily_map, repo_map) \<Rightarrow>
          (let daily_contributions =
                 map (\<lambda>(d, c). \<lparr>date = d, count = c\<rparr>) (sort daily_map);
               repo_contributions =
                 map (\<lambda>(r, c). \<lparr>repo = Some r, rc_count = c, rc_isPrivate = False,
                               rc_details = None\<rparr>)
                     (sorted_desc snd repo_map);
               total_commits = sum_list (map snd daily_map)
           in Inr \<lparr>username = Some user,
                   avatarUrl = None, bio = None, company = None, location = None,
                   followers = None, following = None,
                   publicRepos = None, privateRepos = None, totalRepos = None,
                   totalContributions = Some total_commits,
                   totalCommits = Some total_commits,
                   pullRequests = Some 0,
                   pullRequestReviews = Some 0,
                   issues = Some 0,
                   dailyContributions = Some daily_contributions,
                   repositoryContributions = Some repo_contributions,
                   languageStats = Some [],
                   organizations = Some []\<rparr>)))))"

subsection \<open>fetch\_user\_contributions\<close>

definition fetch_user_contributions ::
  "upstream \<Rightarrow> string \<Rightarrow> iso_date \<Rightarrow> iso_date \<Rightarrow> string option \<Rightarrow> error + raw_activity" where
  "fetch_user_contributions up user start_date end_date token =
     (case token of
        None \<Rightarrow> fetch_with_rest_api up user start_date end_date
      | Some t \<Rightarrow>
          if t = [] then fetch_with_rest_api up user start_date end_date
          else fetch_with_graphql up user start_date end_date t)"

subsection \<open>Specification-side notions and sample data for the fetches\<close>

text \<open>The accumulated byte size of language \<open>k\<close> over a sequence of language edges.\<close>

definition named_total :: "lang_edge list \<Rightarrow> string \<Rightarrow> nat" where
  "named_total edges k = sum_list (map edge_size (filter (\<lambda>e. node_name e = k) edges))"

definition all_edges :: "repo_node list \<Rightarrow> lang_edge list" where
  "all_edges all_repos = concat (map node_languages all_repos)"

definition total_bytes :: "repo_node list \<Rightarrow> nat" where
  "total_bytes all_repos = sum_list (map edge_size (all_edges all_repos))"

text \<open>The size recorded for language \<open>k\<close> in a language dict (0 when it has no entry).\<close>

definition size_of :: "(string \<times> lang_entry) list \<Rightarrow> string \<Rightarrow> nat" where
  "size_of m k = (case map_of m k of None \<Rightarrow> 0 | Some l \<Rightarrow> size_bytes l)"

text \<open>The dates of the daily contributions of a fetch result, when there is one.\<close>

definition returned_dates :: "error + raw_activity \<Rightarrow> iso_date list option" where
  "returned_dates res =
     (case res of
        Inl e \<Rightarrow> None
      | Inr r \<Rightarrow> (case dailyContributions r of None \<Rightarrow> None | Some ds \<Rightarrow> Some (map date ds)))"

definition sample_repos :: "repo_node list" where
  "sample_repos =
     [\<lparr>node_isPrivate = False,
       node_languages =
         [\<lparr>edge_size = 300, node_name = ''Python'', node_color = Some ''#3572A5''\<rparr>,
          \<lparr>edge_size = 100, node_name = ''C'', node_color = None\<rparr>]\<rparr>,
      \<lparr>node_isPrivate = True,
       node_languages =
         [\<lparr>edge_size = 400, node_name = ''C'', node_color = None\<rparr>,
          \<lparr>edge_size = 200, node_name = ''Python'', node_color = Some ''#3572A5''\<rparr>]\<rparr>]"

definition sample_viewer :: viewer where
  "sample_viewer =
     \<lparr>v_login = Some ''octocat'', v_avatarUrl = None, v_bio = None, v_company = None,
      v_location = None, v_followers = 7, v_following = 2,
      v_repos_totalCount = 2, v_repos_nodes = sample_repos,
      v_totalCommitContributions = 4, v_totalPullRequestContributions = 1,
      v_totalPullRequestReviewContributions = 0, v_totalIssueContributions = 2,
      v_calendar_totalContributions = 7,
      v_calendar_weeks =
        [[\<lparr>day_date = (2024, 1, 1), contributionCount = 3\<rparr>,
          \<lparr>day_date = (2024, 1, 2), contributionCount = 4\<rparr>]],
      v_commitContributionsByRepository = [],
      v_organizations = [\<lparr>login = ''github'', org_avatarUrl = ''https://x/y.png''\<rparr>]\<rparr>"

text \<open>The same answer with the two calendar days the other way round.\<close>

definition unordered_viewer :: viewer where
  "unordered_viewer =
     sample_viewer\<lparr>v_calendar_weeks :=
        [[\<lparr>day_date = (2024, 1, 2), contributionCount = 4\<rparr>,
          \<lparr>day_date = (2024, 1, 1), contributionCount = 3\<rparr>]]\<rparr>"

definition sample_events :: "event list" where
  "sample_events =
     [\<lparr>ev_type = ''PushEvent'', created_at = ((2024, 3, 2), 3600000000),
       repo_name = ''octocat/hello'', payload_size = Some 2\<rparr>,
      \<lparr>ev_type = ''WatchEvent'', created_at = ((2024, 3, 1), 0),
       repo_name = ''octocat/hello'', payload_size = None\<rparr>,
      \<lparr>ev_type = ''PushEvent'', created_at = ((2024, 3, 1), 7200000000),
       repo_name = ''octocat/world'', payload_size = Some 1\<rparr>,
      \<lparr>ev_type = ''PushEvent'', created_at = ((2023, 12, 31), 0),
       repo_name = ''octocat/old'', payload_size = Some 5\<rparr>]"

definition upstream_of :: "viewer \<Rightarrow> event list \<Rightarrow> upstream" where
  "upstream_of v evs =
     \<lparr>post_probe = (\<lambda>t. Inr [Some ((2024, 3, 2), 3600000000)]),
      get_events = (\<lambda>u n. Inr \<lparr>status_code = 200, events_json = take n evs\<rparr>),
      post_query = (\<lambda>t a b. Inr (GraphqlData v))\<rparr>"

section \<open>The request handler (api/routes.py, get\_yearbook\_stats)\<close>

text \<open>
  The tables (models/user.py): the columns of \<^verbatim>\<open>yearbook_stats\<close> that the handler reads and
  writes, and of \<^verbatim>\<open>user_tokens\<close>.  A table is the list of its rows.
\<close>

record ys_columns =
  ys_username :: string
  ys_year :: int
  ys_avatar_url :: "string option"
  ys_bio :: "string option"
  ys_company :: "string option"
  ys_location :: "string option"
  ys_followers :: int
  ys_following :: int
  ys_total_contributions :: int
  ys_total_commits :: int
  ys_pull_requests :: int
  ys_pull_request_reviews :: int
  ys_issues :: int
  ys_longest_streak :: nat
  ys_current_streak :: nat
  ys_active_days :: nat
  ys_repo_count :: nat
  ys_public_repo_count :: int
  ys_private_repo_count :: int
  ys_total_repo_count :: int
  ys_daily_contributions :: "daily list"
  ys_language_stats :: "lang_stat list"
  ys_top_repos :: "repo_contribution list"
  ys_organizations :: "org list"

record yearbook_stats = ys_columns +
  ys_updated_at :: datetime

record user_token =
  ut_username :: string
  ut_github_token :: string
  ut_is_valid :: bool

record db =
  tbl_yearbook_stats :: "yearbook_stats list"
  tbl_user_tokens :: "user_token list"

text \<open>
  The JSON answer lists every column under its key, and \<^verbatim>\<open>cached\<close>; it is represented by
  the columns and the flag.
\<close>

record response =
  body :: ys_columns
  cached :: bool

text \<open>The calls the handler makes into services/github.py, with their arguments.\<close>

datatype call =
    Probe string "string option"
  | Fetch string iso_date iso_date "string option"


text \<open>\<^verbatim>\<open>result.scalar_one_or_none()\<close> on the rows a query selects.\<close>

definition scalar_one_or_none :: "'a list \<Rightarrow> error + 'a option" where
  "scalar_one_or_none rows =
     (case rows of [] \<Rightarrow> Inr None | [r] \<Rightarrow> Inr (Some r) | _ \<Rightarrow> Inl MultipleResultsFound)"

definition select_token :: "db \<Rightarrow> string \<Rightarrow> user_token list" where
  "select_token d user = filter (\<lambda>t. ut_username t = user \<and> ut_is_valid t) (tbl_user_tokens d)"

definition select_stats :: "db \<Rightarrow> string \<Rightarrow> int \<Rightarrow> yearbook_stats list" where
  "select_stats d user year =
     filter (\<lambda>r. ys_username r = user \<and> ys_year r = year) (tbl_yearbook_stats d)"

text \<open>The first block of the handler: \<^verbatim>\<open>if not token: ...\<close>.\<close>

definition resolve_token :: "db \<Rightarrow> string \<Rightarrow> string option \<Rightarrow> error + string option" where
  "resolve_token d user token =
     (if token = None \<or> token = Some []
      then (case scalar_one_or_none (select_token d user) of
              Inl e \<Rightarrow> Inl e
            | Inr None \<Rightarrow> Inr token
            | Inr (Some stored_token) \<Rightarrow> Inr (Some (ut_github_token stored_token)))
      else Inr token)"

text \<open>
  The staleness check: any exception of the probe, no timestamp, or a timestamp not newer than
  \<^verbatim>\<open>cached.updated_at\<close> leaves the cache valid.
\<close>

definition cache_is_valid :: "upstream \<Rightarrow> string \<Rightarrow> string option \<Rightarrow> yearbook_stats \<Rightarrow> bool" where
  "cache_is_valid up user token cached_row =
     (case fetch_user_latest_push_time up user token of
        Inl e \<Rightarrow> True
      | Inr None \<Rightarrow> True
      | Inr (Some latest_push) \<Rightarrow> ys_updated_at cached_row \<ge> latest_push)"

text \<open>
  The rest of the handler after the cache check: fetch, streaks, insert, answer.  \<open>now\<close> is
  the clock read by the column default of \<^verbatim>\<open>updated_at\<close>.
\<close>

definition fetch_and_store ::
  "upstream \<Rightarrow> datetime \<Rightarrow> db \<Rightarrow> string \<Rightarrow> int \<Rightarrow> string option \<Rightarrow> (error + response) \<times> db" where
  "fetch_and_store up now d user year token =
     (case fetch_user_contributions up user (year, 1, 1) (year, 12, 31) token of
        Inl e \<Rightarrow> (Inl (HTTPException 400 e), d)
      | Inr data \<Rightarrow>
          (let daily = (case dailyContributions data of None \<Rightarrow> [] | Some ds \<Rightarrow> ds) in
           case calculate_streaks year daily of
             Inl e \<Rightarrow> (Inl e, d)
           | Inr (longest, cur, n_active) \<Rightarrow>
               (let repo_contributions =
                      (case repositoryContributions data of None \<Rightarrow> [] | Some rs \<Rightarrow> rs);
                    stats =
                      \<lparr>ys_username = user,
                       ys_year = year,
                       ys_avatar_url = avatarUrl data,
                       ys_bio = bio data,
                       ys_company = company data,
                       ys_location = location data,
                       ys_followers = (case followers data of None \<Rightarrow> 0 | Some n \<Rightarrow> n),
                       ys_following = (case following data of None \<Rightarrow> 0 | Some n \<Rightarrow> n),
                       ys_total_contributions =
                         (case totalContributions data of None \<Rightarrow> 0 | Some n \<Rightarrow> n),
                       ys_total_commits = (case totalCommits data of None \<Rightarrow> 0 | Some n \<Rightarrow> n),
                       ys_pull_requests = (case pullRequests data of None \<Rightarrow> 0 | Some n \<Rightarrow> n),
                       ys_pull_request_reviews =
                         (case pullRequestReviews data of None \<Rightarrow> 0 | Some n \<Rightarrow> n),
                       ys_issues = (case issues data of None \<Rightarrow> 0 | Some n \<Rightarrow> n),
                       ys_longest_streak = longest,
                       ys_current_streak = cur,
                       ys_active_days = n_active,
                       ys_repo_count = length repo_contributions,
                       ys_public_repo_count =
                         (case publicRepos data of None \<Rightarrow> 0 | Some n \<Rightarrow> n),
                       ys_private_repo_count =
                         (case privateRepos data of None \<Rightarrow> 0 | Some n \<Rightarrow> n),
                       ys_total_repo_count = (case totalRepos data of None \<Rightarrow> 0 | Some n \<Rightarrow> n),
                       ys_daily_contributions = daily,
                       ys_language_stats =
                         (case languageStats data of None \<Rightarrow> [] | Some ls \<Rightarrow> ls),
                       ys_top_repos = repo_contributions,
                       ys_organizations =
                         (case organizations data of None \<Rightarrow> [] | Some os \<Rightarrow> os),
                       ys_updated_at = now\<rparr>
                in (Inr \<lparr>body = ys_columns.truncate stats, cached = False\<rparr>,
                    d\<lparr>tbl_yearbook_stats := tbl_yearbook_stats d @ [stats]\<rparr>))))"

definition get_yearbook_stats ::
  "upstream \<Rightarrow> datetime \<Rightarrow> db \<Rightarrow> string \<Rightarrow> int \<Rightarrow> string option
     \<Rightarrow> (error + response) \<times> db \<times> call list" where
  "get_yearbook_stats up now d user year token0 =
     (case resolve_token d user token0 of
        Inl e \<Rightarrow> (Inl e, d, [])
      | Inr token \<Rightarrow>
     (case scalar_one_or_none (select_stats d user year) of
        Inl e \<Rightarrow> (Inl e, d, [])
      | Inr None \<Rightarrow>
          (case fetch_and_store up now d user year token of
             (res, d') \<Rightarrow> (res, d', [Fetch user (year, 1, 1) (year, 12, 31) token]))
      | Inr (Some cached_row) \<Rightarrow>
          if cache_is_valid up user token cached_row
          then (Inr \<lparr>body = ys_columns.truncate cached_row, cached = True\<rparr>, d,
                [Probe user token])
          else
            (case fetch_and_store up now
                    (d\<lparr>tbl_yearbook_stats := remove1 cached_row (tbl_yearbook_stats d)\<rparr>)
                    user year token of
               (res, d') \<Rightarrow>
                 (res, d', [Probe user token, Fetch user (year, 1, 1) (year, 12, 31) token]))))"

subsection \<open>Sample tables\<close>

definition sample_row :: yearbook_stats where
  "sample_row =
     \<lparr>ys_username = ''octocat'', ys_year = 2024, ys_avatar_url = None, ys_bio = None,
      ys_company = None, ys_location = None, ys_followers = 0, ys_following = 0,
      ys_total_contributions = 1, ys_total_commits = 1, ys_pull_requests = 0,
      ys_pull_request_reviews = 0, ys_issues = 0, ys_longest_streak = 1,
      ys_current_streak = 0, ys_active_days = 1, ys_repo_count = 1,
      ys_public_repo_count = 0, ys_private_repo_count = 0, ys_total_repo_count = 0,
      ys_daily_contributions = [\<lparr>date = (2024, 2, 1), count = 1\<rparr>],
      ys_language_stats = [],
      ys_top_repos = [\<lparr>repo = Some ''hello'', rc_count = 1, rc_isPrivate = False,
                        rc_details = None\<rparr>],
      ys_organizations = [],
      ys_updated_at = ((2024, 2, 1), 0)\<rparr>"

definition sample_db :: db where
  "sample_db = \<lparr>tbl_yearbook_stats = [sample_row], tbl_user_tokens = []\<rparr>"



text \<open>A network on which every request fails.\<close>

definition network_down :: upstream where
  "network_down =
     \<lparr>post_probe = (\<lambda>t. Inl (NetworkError ''down'')),
      get_events = (\<lambda>u n. Inl (NetworkError ''down'')),
      post_query = (\<lambda>t a b. Inl (NetworkError ''down''))\<rparr>"

text \<open>A network whose probe answers with a newer push while the fetch fails.\<close>

definition fetch_down :: upstream where
  "fetch_down =
     \<lparr>post_probe = (\<lambda>t. Inr [Some ((2024, 3, 2), 0)]),
      get_events =
        (\<lambda>u n. if n = 1
                then Inr \<lparr>status_code = 200, events_json = take 1 sample_events\<rparr>
                else Inl (NetworkError ''down'')),
      post_query = (\<lambda>t a b. Inl (NetworkError ''down''))\<rparr>"

section \<open>Calendar facts\<close>

lemma int_div_step:
  fixes y k :: int
  assumes "0 < k"
  shows "y div k = (y - 1) div k + (if y mod k = 0 then 1 else 0)"
proof -
  define q where "q = y div k"
  define r where "r = y mod k"
  have y: "y = q * k + r" by (simp add: q_def r_def)
  have r: "0 \<le> r" "r < k" using assms by (simp_all add: r_def)
  show ?thesis
  proof (cases "r = 0")
    case True
    have "y - 1 = (q - 1) * k + (k - 1)" using y True by (simp add: algebra_simps)
    then have "(y - 1) div k = (q - 1) + (k - 1) div k"
      using assms by (metis div_mult_self3 less_irrefl)
    moreover have "(k - 1) div k = 0" using assms by simp
    ultimately show ?thesis using True by (simp add: q_def r_def)
  next
    case False
    have "y - 1 = q * k + (r - 1)" using y by simp
    then have "(y - 1) div k = q + (r - 1) div k"
      using assms by (metis div_mult_self3 less_irrefl)
    moreover have "(r - 1) div k = 0" using r False by simp
    ultimately show ?thesis using False by (simp add: q_def r_def)
  qed
qed

lemma days_before_year_Suc:
  "days_before_year (y + 1) = days_before_year y + (if is_leap y then 366 else 365)"
proof -
  have a: "y div 4 = (y - 1) div 4 + (if y mod 4 = 0 then 1 else 0)" by (rule int_div_step) simp
  have b: "y div 100 = (y - 1) div 100 + (if y mod 100 = 0 then 1 else 0)" by (rule int_div_step) simp
  have c: "y div 400 = (y - 1) div 400 + (if y mod 400 = 0 then 1 else 0)" by (rule int_div_step) simp
  have d: "y mod 100 = 0" if "y mod 400 = 0"
  proof -
    have "(400::int) dvd y" using that by (simp add: mod_eq_0_iff_dvd)
    moreover have "(100::int) dvd 400" by simp
    ultimately have "(100::int) dvd y" by (rule dvd_trans[rotated])
    then show ?thesis by (simp add: mod_eq_0_iff_dvd)
  qed
  have e: "y mod 4 = 0" if "y mod 100 = 0"
  proof -
    have "(100::int) dvd y" using that by (simp add: mod_eq_0_iff_dvd)
    moreover have "(4::int) dvd 100" by simp
    ultimately have "(4::int) dvd y" by (rule dvd_trans[rotated])
    then show ?thesis by (simp add: mod_eq_0_iff_dvd)
  qed
  have "days_before_year (y + 1) = y * 365 + y div 4 - y div 100 + y div 400"
    by (simp add: days_before_year_def)
  also have "\<dots> = days_before_year y + 365 + (if y mod 4 = 0 then 1 else 0)
        - (if y mod 100 = 0 then 1 else 0) + (if y mod 400 = 0 then 1 else 0)"
    unfolding days_before_year_def
    by (subst a, subst b, subst c) (simp add: algebra_simps)
  also have "\<dots> = days_before_year y + (if is_leap y then 366 else 365)"
    using d e by (cases "y mod 4 = 0"; cases "y mod 100 = 0"; cases "y mod 400 = 0") (simp_all add: is_leap_def)
  finally show ?thesis .
qed


lemma days_before_year_mono: "y \<le> y' \<Longrightarrow> days_before_year y \<le> days_before_year y'"
proof (induction y' rule: int_ge_induct)
  case base
  show ?case by simp
next
  case (step i)
  have "days_before_year i \<le> days_before_year (i + 1)"
    by (simp add: days_before_year_Suc)
  with step show ?case by simp
qed

lemma days_before_next_year:
  assumes "y < y'"
  shows "days_before_year y + (if is_leap y then 366 else 365) \<le> days_before_year y'"
proof -
  have "days_before_year (y + 1) \<le> days_before_year y'"
    using assms by (intro days_before_year_mono) simp
  then show ?thesis by (simp add: days_before_year_Suc)
qed

lemma days_in_month_pos: "1 \<le> days_in_month y m"
  by (simp add: days_in_month_def)

lemma days_before_month_Suc:
  "1 \<le> m \<Longrightarrow> days_before_month y (Suc m) = days_before_month y m + days_in_month y m"
  by (simp add: days_before_month_def)

lemma days_before_month_mono:
  "m \<le> m' \<Longrightarrow> days_before_month y m \<le> days_before_month y m'"
proof (induction m')
  case 0
  then show ?case by simp
next
  case (Suc m')
  then show ?case
    by (cases "m = Suc m'") (auto simp: days_before_month_def)
qed

lemma days_before_month_13:
  "days_before_month y 13 = (if is_leap y then 366 else 365)"
  by (simp add: days_before_month_def days_in_month_def upt_conv_Cons numeral_eq_Suc)

lemma day_of_year_le:
  assumes "1 \<le> m" "m \<le> 12" "d \<le> days_in_month y m"
  shows "days_before_month y m + d \<le> (if is_leap y then 366 else 365)"
proof -
  have "days_before_month y m + d \<le> days_before_month y (Suc m)"
    using assms by (simp add: days_before_month_Suc)
  also have "\<dots> \<le> days_before_month y 13"
    using assms by (intro days_before_month_mono) simp
  finally show ?thesis by (simp only: days_before_month_13)
qed

lemma toordinal_strict_mono:
  assumes "valid_ymd a" "valid_ymd b" "a < b"
  shows "toordinal a < toordinal b"
proof -
  obtain y1 m1 d1 where a: "a = (y1, m1, d1)" by (cases a)
  obtain y2 m2 d2 where b: "b = (y2, m2, d2)" by (cases b)
  have va: "1 \<le> m1" "m1 \<le> 12" "1 \<le> d1" "d1 \<le> days_in_month y1 m1"
    using assms(1) by (simp_all add: a valid_ymd_def)
  have vb: "1 \<le> m2" "m2 \<le> 12" "1 \<le> d2" "d2 \<le> days_in_month y2 m2"
    using assms(2) by (simp_all add: b valid_ymd_def)
  consider "y1 < y2" | "y1 = y2" "m1 < m2" | "y1 = y2" "m1 = m2" "d1 < d2"
    using assms(3) by (fastforce simp: a b order_le_less)
  then show ?thesis
  proof cases
    case 1
    have "int (days_before_month y1 m1 + d1) \<le> (if is_leap y1 then 366 else 365)"
      using day_of_year_le[OF va(1,2,4)] by (simp split: if_splits)
    then have "toordinal a \<le> days_before_year y2"
      using days_before_next_year[OF 1] by (simp add: a toordinal_def split: if_splits)
    then show ?thesis using vb by (simp add: b toordinal_def)
  next
    case 2
    have "days_before_month y1 m1 + d1 \<le> days_before_month y1 (Suc m1)"
      using va by (simp add: days_before_month_Suc)
    also have "\<dots> \<le> days_before_month y1 m2"
      using 2 by (intro days_before_month_mono) simp
    finally show ?thesis using 2 vb by (simp add: a b toordinal_def)
  next
    case 3
    then show ?thesis by (simp add: a b toordinal_def)
  qed
qed

lemma toordinal_mono_iff:
  assumes "valid_ymd a" "valid_ymd b"
  shows "toordinal a < toordinal b \<longleftrightarrow> a < b"
  using toordinal_strict_mono[OF assms] toordinal_strict_mono[OF assms(2,1)]
  by (metis less_asym' linorder_neqE order_less_irrefl)

lemma toordinal_inj:
  assumes "valid_ymd a" "valid_ymd b" "toordinal a = toordinal b"
  shows "a = b"
  using toordinal_strict_mono[OF assms(1,2)] toordinal_strict_mono[OF assms(2,1)] assms(3)
  by (metis linorder_neqE order_less_irrefl)

lemma prev_day_ok:
  assumes "valid_ymd dt" "prev_day dt = Inr dt'"
  shows "valid_ymd dt' \<and> toordinal dt' = toordinal dt - 1"
proof -
  obtain y m d where dt: "dt = (y, m, d)" by (cases dt)
  have v: "1 \<le> y" "y \<le> 9999" "1 \<le> m" "m \<le> 12" "1 \<le> d" "d \<le> days_in_month y m"
    using assms(1) by (simp_all add: dt valid_ymd_def)
  consider "1 < d" | "d = 1" "1 < m" | "d = 1" "m = 1" "1 < y" | "d = 1" "m = 1" "y = 1"
    using v by linarith
  then show ?thesis
  proof cases
    case 1
    then have "dt' = (y, m, d - 1)" using assms(2) by (simp add: dt prev_day_def)
    then show ?thesis using 1 v by (auto simp: dt valid_ymd_def toordinal_def)
  next
    case 2
    then have e: "dt' = (y, m - 1, days_in_month y (m - 1))"
      using assms(2) by (simp add: dt prev_day_def)
    have "days_before_month y (Suc (m - 1)) = days_before_month y (m - 1) + days_in_month y (m - 1)"
      using 2 by (intro days_before_month_Suc) simp
    then have "days_before_month y m = days_before_month y (m - 1) + days_in_month y (m - 1)"
      using 2 by simp
    then show ?thesis
      using 2 v days_in_month_pos[of y "m - 1"] by (auto simp: e dt valid_ymd_def toordinal_def)
  next
    case 3
    then have e: "dt' = (y - 1, 12, 31)" using assms(2) by (simp add: dt prev_day_def)
    have "days_before_year (y - 1 + 1) = days_before_year (y - 1) + (if is_leap (y - 1) then 366 else 365)"
      by (rule days_before_year_Suc)
    moreover have "int (days_before_month (y - 1) 12) + 31 = (if is_leap (y - 1) then 366 else 365)"
      using days_before_month_13[of "y - 1"] days_before_month_Suc[of 12 "y - 1"]
      by (simp add: days_in_month_def split: if_splits)
    moreover have "days_before_month y 1 = 0" by (simp add: days_before_month_def)
    ultimately show ?thesis
      using 3 v by (simp add: e dt valid_ymd_def toordinal_def days_in_month_def)
  next
    case 4
    then show ?thesis using assms(2) by (simp add: dt prev_day_def)
  qed
qed

lemma prev_day_fails:
  assumes "valid_ymd dt" "prev_day dt = Inl e"
  shows "toordinal dt = 1"
proof -
  obtain y m d where dt: "dt = (y, m, d)" by (cases dt)
  have "y = 1 \<and> m = 1 \<and> d = 1"
    using assms by (auto simp: dt prev_day_def valid_ymd_def split: if_splits)
  then show ?thesis
    by (simp add: dt toordinal_def days_before_year_def days_before_month_def)
qed

lemma minus_days_ok:
  "valid_ymd dt \<Longrightarrow> minus_days dt i = Inr dt' \<Longrightarrow>
     valid_ymd dt' \<and> toordinal dt' = toordinal dt - int i"
proof (induction i arbitrary: dt)
  case 0
  then show ?case by simp
next
  case (Suc i)
  then obtain dt1 where p: "prev_day dt = Inr dt1" and m: "minus_days dt1 i = Inr dt'"
    by (auto split: sum.splits)
  from prev_day_ok[OF Suc.prems(1) p] Suc.IH[OF _ m] show ?case by simp
qed

lemma minus_days_defined:
  "valid_ymd dt \<Longrightarrow> int i < toordinal dt \<Longrightarrow> \<exists>dt'. minus_days dt i = Inr dt'"
proof (induction i arbitrary: dt)
  case 0
  show ?case by (intro exI[of _ dt]) simp
next
  case (Suc i)
  show ?case
  proof (cases "prev_day dt")
    case (Inl e)
    from prev_day_fails[OF Suc.prems(1) Inl] Suc.prems(2) show ?thesis by simp
  next
    case (Inr dt1)
    from prev_day_ok[OF Suc.prems(1) Inr] Suc.prems(2)
    have "valid_ymd dt1" "int i < toordinal dt1" by simp_all
    from Suc.IH[OF this] Inr show ?thesis by simp
  qed
qed


section \<open>Facts about the longest-streak loop\<close>

lemma runs_nonempty: "runs (x # xs) \<noteq> []"
  by (induction xs arbitrary: x) (auto split: list.splits)

lemma streak_scan_runs:
  "1 \<le> s \<Longrightarrow>
     (case streak_scan xs L s (Some p) of (L', s') \<Rightarrow> max L' s') =
       max L (max (length (hd (runs (p # xs))) + s - 1)
                  (foldr max (map length (tl (runs (p # xs)))) 0))"
proof (induction xs arbitrary: L s p)
  case Nil
  then show ?case by simp
next
  case (Cons x xs)
  obtain r rs where r: "runs (x # xs) = r # rs"
    using runs_nonempty[of x xs] by (cases "runs (x # xs)") auto
  show ?case
  proof (cases "x - p = 1")
    case True
    have "1 \<le> s + 1" by simp
    from Cons.IH[OF this, of L x] True r show ?thesis by simp
  next
    case False
    from Cons.IH[of 1 "max L s" x] False r Cons.prems show ?thesis
      by (simp add: max.assoc)
  qed
qed

lemma streak_scan_longest_run:
  "(case streak_scan xs 0 0 None of (L', s') \<Rightarrow> max L' s') = longest_run xs"
proof (cases xs)
  case Nil
  then show ?thesis by (simp add: longest_run_def)
next
  case (Cons x xs')
  obtain r rs where r: "runs (x # xs') = r # rs"
    using runs_nonempty[of x xs'] by (cases "runs (x # xs')") auto
  from streak_scan_runs[of 1 xs' 0 x] r Cons show ?thesis
    by (simp add: longest_run_def)
qed

lemma streak_scan_ge:
  "max L s \<le> (case streak_scan xs L s prev of (L', s') \<Rightarrow> max L' s')"
proof (induction xs arbitrary: L s prev)
  case Nil
  show ?case by simp
next
  case (Cons x xs)
  show ?case
  proof (cases "case prev of None \<Rightarrow> False | Some p \<Rightarrow> x - p = 1")
    case True
    with Cons[of L "s + 1" "Some x"] show ?thesis by simp
  next
    case False
    with Cons[of "max L s" 1 "Some x"] show ?thesis by simp
  qed
qed

lemma streak_scan_continue:
  "sorted_wrt (<) (p # xs) \<Longrightarrow> (\<forall>i\<in>{1..j}. p + int i \<in> set xs) \<Longrightarrow>
     s + j \<le> (case streak_scan xs L s (Some p) of (L', s') \<Rightarrow> max L' s')"
proof (induction xs arbitrary: L s p j)
  case Nil
  then have "j = 0" by (cases j) auto
  then show ?case by simp
next
  case (Cons x xs)
  show ?case
  proof (cases j)
    case 0
    with streak_scan_ge[of L s "x # xs" "Some p"] show ?thesis by simp
  next
    case (Suc j')
    have lt: "p < x" "\<forall>z\<in>set xs. x < z" "\<forall>z\<in>set xs. p < z" "sorted_wrt (<) (x # xs)"
      using Cons.prems(1) by auto
    have "p + 1 \<in> set (x # xs)" using Cons.prems(2) Suc by auto
    then have x: "x = p + 1" using lt by auto
    have "\<forall>i\<in>{1..j'}. x + int i \<in> set xs"
    proof
      fix i assume i: "i \<in> {1..j'}"
      then have "Suc i \<in> {1..j}" using Suc by simp
      from Cons.prems(2)[rule_format, OF this]
      have mem: "p + int (Suc i) \<in> set (x # xs)" .
      have e: "p + int (Suc i) = x + int i" using x by simp
      have "x + int i \<in> set (x # xs)" using mem unfolding e .
      moreover have "x + int i \<noteq> x" using i by simp
      ultimately show "x + int i \<in> set xs" by simp
    qed
    from Cons.IH[OF lt(4) this, of "s + 1" L] x Suc show ?thesis by simp
  qed
qed

lemma streak_scan_interval:
  "sorted_wrt (<) xs \<Longrightarrow> (\<forall>i<k. a + int i \<in> set xs) \<Longrightarrow>
     k \<le> (case streak_scan xs L s prev of (L', s') \<Rightarrow> max L' s')"
proof (induction xs arbitrary: L s prev)
  case Nil
  then have "k = 0" by (cases k) auto
  then show ?case by simp
next
  case (Cons x xs)
  have lt: "\<forall>z\<in>set xs. x < z" "sorted_wrt (<) xs" using Cons.prems(1) by auto
  show ?case
  proof (cases "k = 0")
    case True
    then show ?thesis by simp
  next
    case False
    note k0 = this
    then have a: "a \<in> set (x # xs)" using Cons.prems(2)[rule_format, of 0] by simp
    show ?thesis
    proof (cases "a = x")
      case True
      have in_xs: "\<forall>i\<in>{1..k - 1}. x + int i \<in> set xs"
      proof
        fix i assume i: "i \<in> {1..k - 1}"
        then have "i < k" using k0 by auto
        from Cons.prems(2)[rule_format, OF this]
        have "a + int i \<in> set (x # xs)" .
        moreover have "a + int i \<noteq> x" using True i by simp
        ultimately show "x + int i \<in> set xs" using True by simp
      qed
      define L1 where "L1 = (if (case prev of None \<Rightarrow> False | Some p \<Rightarrow> x - p = 1) then L else max L s)"
      define s1 where "s1 = (if (case prev of None \<Rightarrow> False | Some p \<Rightarrow> x - p = 1) then s + 1 else 1)"
      have step: "streak_scan (x # xs) L s prev = streak_scan xs L1 s1 (Some x)"
        by (simp add: L1_def s1_def)
      have "1 \<le> s1" by (simp add: s1_def)
      moreover have "s1 + (k - 1) \<le> (case streak_scan xs L1 s1 (Some x) of (L', s') \<Rightarrow> max L' s')"
        using streak_scan_continue[OF Cons.prems(1) in_xs] .
      ultimately show ?thesis using k0 unfolding step by linarith
    next
      case False
      then have "x < a" using a lt by auto
      then have "\<forall>i<k. a + int i \<in> set xs" using Cons.prems(2) by fastforce
      from Cons.IH[OF lt(2) this] have
        *: "\<And>L s prev. k \<le> (case streak_scan xs L s prev of (L', s') \<Rightarrow> max L' s')" .
      show ?thesis
        by (cases "case prev of None \<Rightarrow> False | Some p \<Rightarrow> x - p = 1") (simp_all add: *)
    qed
  qed
qed


lemma fromisoformat_Inr: "fromisoformat dt = Inr dt' \<Longrightarrow> dt' = dt \<and> valid_ymd dt"
  by (auto simp: fromisoformat_def split: if_splits)

lemma longest_loop_scan:
  "\<forall>d\<in>set ds. fromisoformat (date d) = Inr (date d) \<Longrightarrow>
     longest_loop ds L s prev =
       Inr (streak_scan (map (\<lambda>d. toordinal (date d)) ds) L s (map_option toordinal prev))"
proof (induction ds arbitrary: L s prev)
  case Nil
  show ?case by simp
next
  case (Cons d ds)
  then have d: "fromisoformat (date d) = Inr (date d)"
    and rest: "\<forall>d\<in>set ds. fromisoformat (date d) = Inr (date d)" by simp_all
  show ?case
    by (cases prev) (simp_all add: d Cons.IH[OF rest] days_between_def)
qed

lemma longest_loop_Inr_valid:
  "longest_loop ds L s prev = Inr r \<Longrightarrow> \<forall>d\<in>set ds. fromisoformat (date d) = Inr (date d)"
proof (induction ds arbitrary: L s prev)
  case Nil
  show ?case by simp
next
  case (Cons d ds)
  from Cons.prems obtain c where c: "fromisoformat (date d) = Inr c"
    by (cases "fromisoformat (date d)") auto
  then have cd: "c = date d" by (simp add: fromisoformat_Inr)
  from Cons.prems c have
    "longest_loop ds L (s + 1) (Some c) = Inr r \<or> longest_loop ds (max L s) 1 (Some c) = Inr r"
    by (auto split: if_splits)
  then have "\<forall>d\<in>set ds. fromisoformat (date d) = Inr (date d)"
    using Cons.IH by blast
  then show ?case using c cd by simp
qed

lemma longest_loop_Inl:
  "longest_loop ds L s prev = Inl e \<Longrightarrow> e = ValueError"
proof (induction ds arbitrary: L s prev)
  case Nil
  then show ?case by simp
next
  case (Cons d ds)
  then show ?case
    by (auto simp: fromisoformat_def split: sum.splits if_splits)
qed

lemma current_loop_tail:
  assumes "\<forall>i<n. \<exists>d. minus_days e i = Inr d"
  shows "1 \<le> a \<Longrightarrow> a \<le> n \<Longrightarrow>
     \<exists>k. current_loop e A [a..<n] cs = Inr (cs + k) \<and> a + k \<le> n \<and>
         (\<forall>j<k. hit e A (a + j)) \<and> (a + k < n \<longrightarrow> \<not> hit e A (a + k))"
proof (induction "n - a" arbitrary: a cs)
  case 0
  then have "a = n" by simp
  then show ?case by (intro exI[of _ 0]) simp
next
  case (Suc m)
  then have an: "a < n" by simp
  then obtain d where d: "minus_days e a = Inr d" using assms by blast
  have upt: "[a..<n] = a # [Suc a..<n]" using an by (simp add: upt_conv_Cons)
  show ?case
  proof (cases "d \<in> A")
    case True
    have "m = n - Suc a" "1 \<le> Suc a" "Suc a \<le> n" using Suc.hyps(2) an by simp_all
    from Suc.hyps(1)[OF this, of "cs + 1"] obtain k where
      k: "current_loop e A [Suc a..<n] (cs + 1) = Inr (cs + 1 + k)" "Suc a + k \<le> n"
         "\<forall>j<k. hit e A (Suc a + j)" "Suc a + k < n \<longrightarrow> \<not> hit e A (Suc a + k)"
      by blast
    have h0: "hit e A a" using d True by (simp add: hit_def)
    have "\<forall>j<Suc k. hit e A (a + j)"
    proof (intro allI impI)
      fix j assume "j < Suc k"
      then show "hit e A (a + j)"
        using h0 k(3)[rule_format, of "j - 1"] by (cases j) simp_all
    qed
    then show ?thesis
      using k d True upt by (intro exI[of _ "Suc k"]) simp
  next
    case False
    have "\<not> hit e A a" using d False by (simp add: hit_def)
    then show ?thesis
      using d False upt Suc.prems an by (intro exI[of _ 0]) simp
  qed
qed

lemma current_loop_full:
  assumes "\<forall>i<n. \<exists>d. minus_days e i = Inr d" "1 \<le> n"
  shows "\<exists>k. current_loop e A [0..<n] 0 = Inr k \<and>
           k + (if hit e A 0 then 0 else 1) \<le> n \<and>
           (\<forall>j<k. hit e A (j + (if hit e A 0 then 0 else 1))) \<and>
           (k + (if hit e A 0 then 0 else 1) < n \<longrightarrow> \<not> hit e A (k + (if hit e A 0 then 0 else 1)))"
proof -
  have upt: "[0..<n] = 0 # [1..<n]" using assms(2) by (simp add: upt_conv_Cons)
  have m0: "minus_days e 0 = Inr e" by simp
  show ?thesis
  proof (cases "e \<in> A")
    case True
    then have h: "hit e A 0" by (simp add: hit_def)
    from current_loop_tail[OF assms(1), of 1 A 1] assms(2) obtain k where
      k: "current_loop e A [1..<n] 1 = Inr (1 + k)" "1 + k \<le> n"
         "\<forall>j<k. hit e A (1 + j)" "1 + k < n \<longrightarrow> \<not> hit e A (1 + k)"
      by auto
    have "\<forall>j<Suc k. hit e A j"
    proof (intro allI impI)
      fix j assume "j < Suc k"
      then show "hit e A j" using h k(3)[rule_format, of "j - 1"] by (cases j) simp_all
    qed
    then show ?thesis
      using k h True upt by (intro exI[of _ "Suc k"]) simp
  next
    case False
    then have h: "\<not> hit e A 0" by (simp add: hit_def)
    from current_loop_tail[OF assms(1), of 1 A 0] assms(2) obtain k where
      k: "current_loop e A [1..<n] 0 = Inr k" "1 + k \<le> n"
         "\<forall>j<k. hit e A (1 + j)" "1 + k < n \<longrightarrow> \<not> hit e A (1 + k)"
      by auto
    then show ?thesis
      using h False upt by (intro exI[of _ k]) simp
  qed
qed


section \<open>Facts about the streak block\<close>

lemma days_before_year_nonneg: "1 \<le> y \<Longrightarrow> 0 \<le> days_before_year y"
  using days_before_year_mono[of 1 y] by (simp add: days_before_year_def)

lemma toordinal_dec31: "1 \<le> y \<Longrightarrow> 365 \<le> toordinal (y, 12, 31)"
proof -
  assume y: "1 \<le> y"
  have "days_before_month y 13 = days_before_month y 12 + days_in_month y 12"
    using days_before_month_Suc[of 12 y] by simp
  then have "int (days_before_month y 12) + 31 = (if is_leap y then 366 else 365)"
    by (simp add: days_before_month_13 days_in_month_def split: if_splits)
  then show ?thesis
    using days_before_year_nonneg[OF y] by (simp add: toordinal_def split: if_splits)
qed

lemma valid_dec31: "1 \<le> y \<Longrightarrow> y \<le> 9999 \<Longrightarrow> valid_ymd (y, 12, 31)"
  by (simp add: valid_ymd_def days_in_month_def)

lemma minus_days_window:
  assumes "valid_ymd e" "365 \<le> toordinal e"
  shows "\<forall>i<365. \<exists>d. minus_days e i = Inr d"
proof (intro allI impI)
  fix i :: nat assume "i < 365"
  then have "int i < toordinal e" using assms(2) by simp
  from minus_days_defined[OF assms(1) this] show "\<exists>d. minus_days e i = Inr d" .
qed

lemma current_streak_dec31:
  "1 \<le> year \<Longrightarrow> year \<le> 9999 \<Longrightarrow>
     current_streak year ds = current_streak_from (year, 12, 31) ds"
  by (simp add: current_streak_def datetime_ymd_def valid_dec31)

lemma current_streak_from_walk:
  assumes "valid_ymd end_d" "365 \<le> toordinal end_d"
  shows "\<exists>k. current_streak_from end_d ds = Inr k \<and>
           (let A = set (map date (active_days ds)); t = (if hit end_d A 0 then 0 else 1) in
              k + t \<le> 365 \<and> (\<forall>j<k. hit end_d A (j + t)) \<and>
              (k + t < 365 \<longrightarrow> \<not> hit end_d A (k + t)))"
  using current_loop_full[OF minus_days_window[OF assms], of "set (map date (active_days ds))"]
  unfolding current_streak_from_def Let_def by simp

lemma runs_concat: "concat (runs xs) = xs"
  by (induction xs rule: runs.induct) (auto split: list.splits)

lemma runs_consecutive:
  "\<forall>r\<in>set (runs xs). r \<noteq> [] \<and> successively (\<lambda>a b. b - a = 1) r"
proof (induction xs rule: runs.induct)
  case 1
  show ?case by simp
next
  case (2 x)
  show ?case by simp
next
  case (3 x y zs)
  obtain r rs where r: "runs (y # zs) = r # rs"
    using runs_nonempty[of y zs] by (cases "runs (y # zs)") auto
  have "concat (runs (y # zs)) = y # zs" by (rule runs_concat)
  moreover have "r \<noteq> []" using 3 r by (cases "y - x = 1") auto
  ultimately have hd: "hd r = y" using r by (cases r) auto
  show ?case
  proof (cases "y - x = 1")
    case True
    with 3 r hd show ?thesis by (cases r) (auto simp: successively_Cons)
  next
    case False
    with 3 r show ?thesis by auto
  qed
qed

lemma longest_streak_valid:
  assumes "\<forall>d\<in>set (active_days ds). fromisoformat (date d) = Inr (date d)"
  shows "longest_streak ds =
           Inr (longest_run (map (\<lambda>d. toordinal (date d)) (sort_key date (active_days ds))))"
proof -
  have "\<forall>d\<in>set (sort_key date (active_days ds)). fromisoformat (date d) = Inr (date d)"
    using assms by simp
  from longest_loop_scan[OF this, of 0 0 None] show ?thesis
    using streak_scan_longest_run[of "map (\<lambda>d. toordinal (date d)) (sort_key date (active_days ds))"]
    by (simp add: longest_streak_def split: prod.splits)
qed

lemma longest_streak_invalid:
  assumes "\<not> (\<forall>d\<in>set (active_days ds). fromisoformat (date d) = Inr (date d))"
  shows "longest_streak ds = Inl ValueError"
proof (cases "longest_loop (sort_key date (active_days ds)) 0 0 None")
  case (Inl e)
  with longest_loop_Inl[OF Inl] show ?thesis by (simp add: longest_streak_def)
next
  case (Inr r)
  from longest_loop_Inr_valid[OF Inr] assms show ?thesis by simp
qed

lemma strict_sorted_ordinals:
  assumes "distinct (map date ds)"
    and "\<forall>d\<in>set (active_days ds). valid_ymd (date d)"
  shows "sorted_wrt (<) (map (\<lambda>d. toordinal (date d)) (sort_key date (active_days ds)))"
proof -
  let ?S = "sort_key date (active_days ds)"
  have "distinct (map date (active_days ds))"
    using assms(1) unfolding active_days_def by (rule distinct_map_filter)
  then have "distinct (map date ?S)" by (simp add: distinct_map)
  moreover have "sorted (map date ?S)" by (rule sorted_sort_key)
  ultimately have "sorted_wrt (<) (map date ?S)" by (simp add: strict_sorted_iff)
  then have "sorted_wrt (\<lambda>a b. date a < date b) ?S" by (simp add: sorted_wrt_map)
  then have "sorted_wrt (\<lambda>a b. toordinal (date a) < toordinal (date b)) ?S"
  proof (rule sorted_wrt_mono_rel[rotated])
    fix a b assume "a \<in> set ?S" "b \<in> set ?S" "date a < date b"
    then show "toordinal (date a) < toordinal (date b)"
      using assms(2) by (intro toordinal_strict_mono) simp_all
  qed
  then show ?thesis by (simp add: sorted_wrt_map)
qed

lemma streaks_ordered:
  assumes dist: "distinct (map date ds)"
    and calc: "calculate_streaks year ds = Inr (longest, cur, n)"
  shows "cur \<le> longest"
proof -
  let ?S = "sort_key date (active_days ds)"
  let ?A = "set (map date (active_days ds))"
  let ?ords = "map (\<lambda>d. toordinal (date d)) ?S"
  from calc have lo: "longest_streak ds = Inr longest" and cu: "current_streak year ds = Inr cur"
    by (auto simp: calculate_streaks_def split: sum.splits)
  from lo obtain L s where loop: "longest_loop ?S 0 0 None = Inr (L, s)" and lmax: "longest = max L s"
    by (auto simp: longest_streak_def split: sum.splits prod.splits)
  from longest_loop_Inr_valid[OF loop]
  have parse: "\<forall>d\<in>set ?S. fromisoformat (date d) = Inr (date d)" .
  then have valid: "\<forall>d\<in>set (active_days ds). valid_ymd (date d)"
    using fromisoformat_Inr by fastforce
  from longest_loop_scan[OF parse, of 0 0 None] loop
  have scan: "streak_scan ?ords 0 0 None = (L, s)" by simp
  have sorted: "sorted_wrt (<) ?ords" using strict_sorted_ordinals[OF dist valid] .
  from cu have yr: "valid_ymd (year, 12, 31)" and cf: "current_streak_from (year, 12, 31) ds = Inr cur"
    by (auto simp: current_streak_def datetime_ymd_def split: if_splits)
  from yr have "1 \<le> year" by (simp add: valid_ymd_def)
  then have ord: "365 \<le> toordinal (year, 12, 31)" by (rule toordinal_dec31)
  define t :: nat where "t = (if hit (year, 12, 31) ?A 0 then 0 else 1)"
  from current_streak_from_walk[OF yr ord, of ds] cf
  have hits: "\<forall>j<cur. hit (year, 12, 31) ?A (j + t)"
    by (simp add: Let_def t_def)
  define a where "a = toordinal (year, 12, 31) - int t - int cur + 1"
  have "\<forall>i<cur. a + int i \<in> set ?ords"
  proof (intro allI impI)
    fix i assume i: "i < cur"
    then have "cur - 1 - i < cur" by simp
    from hits[rule_format, OF this] obtain d where
      d: "minus_days (year, 12, 31) (cur - 1 - i + t) = Inr d" "d \<in> ?A"
      by (auto simp: hit_def split: sum.splits)
    from minus_days_ok[OF yr d(1)] i
    have "toordinal d = a + int i" by (simp add: a_def)
    moreover from d(2) obtain x where "x \<in> set ?S" "date x = d" by auto
    ultimately show "a + int i \<in> set ?ords" by force
  qed
  from streak_scan_interval[OF sorted this, of 0 0 None] scan lmax
  show ?thesis by simp
qed


section \<open>Facts about the fetches\<close>

lemma dict_add_keys:
  "map fst (dict_add m k c) = (if k \<in> fst ` set m then map fst m else map fst m @ [k])"
  by (induction m) force+

lemma dict_add_distinct: "distinct (map fst m) \<Longrightarrow> distinct (map fst (dict_add m k c))"
  by (simp add: dict_add_keys)

lemma rest_loop_distinct:
  "distinct (map fst daily_map) \<Longrightarrow>
     rest_loop evs start end_dt daily_map repo_map = Inr (dm, rm) \<Longrightarrow> distinct (map fst dm)"
proof (induction evs arbitrary: daily_map repo_map)
  case Nil
  then show ?case by simp
next
  case (Cons ev evs)
  from Cons.prems(2) consider
      (skip) "rest_loop evs start end_dt daily_map repo_map = Inr (dm, rm)"
    | (add) k c r where
        "rest_loop evs start end_dt (dict_add daily_map k c) (dict_add repo_map r c) = Inr (dm, rm)"
    by (auto simp: Let_def split: if_splits sum.splits list.splits)
  then show ?case
  proof cases
    case skip
    from Cons.IH[OF Cons.prems(1) skip] show ?thesis .
  next
    case add
    from Cons.IH[OF dict_add_distinct[OF Cons.prems(1)] add] show ?thesis .
  qed
qed

lemma sorted_pairs_fst:
  fixes xs :: "('a::linorder \<times> 'b::linorder) list"
  shows "sorted xs \<Longrightarrow> sorted (map fst xs)"
  by (induction xs) (auto simp: less_eq_prod_def)

lemma sort_items_strict:
  fixes m :: "('a::linorder \<times> 'b::linorder) list"
  assumes "distinct (map fst m)"
  shows "sorted_wrt (<) (map fst (sort m))"
proof -
  have "distinct (map fst (sort m))"
    using assms by (simp add: distinct_map)
  moreover have "sorted (map fst (sort m))"
    by (rule sorted_pairs_fst) simp
  ultimately show ?thesis by (simp add: strict_sorted_iff)
qed

lemma fromisoformat_same: "fromisoformat dt = Inr dt' \<Longrightarrow> dt' = dt"
  by (auto simp: fromisoformat_def split: if_splits)

lemma rest_api_Inr:
  assumes "fetch_with_rest_api up user start_date end_date = Inr r"
  obtains (ok) resp dm rm where
    "get_events up user 100 = Inr resp" "status_code resp \<noteq> 404"
    "fromisoformat start_date = Inr start_date" "fromisoformat end_date = Inr end_date"
    "rest_loop (events_json resp) (start_date, 0) (end_date, 86399000000) [] [] = Inr (dm, rm)"
    "r = \<lparr>username = Some user,
           avatarUrl = None, bio = None, company = None, location = None,
           followers = None, following = None,
           publicRepos = None, privateRepos = None, totalRepos = None,
           totalContributions = Some (sum_list (map snd dm)),
           totalCommits = Some (sum_list (map snd dm)),
           pullRequests = Some 0,
           pullRequestReviews = Some 0,
           issues = Some 0,
           dailyContributions = Some (map (\<lambda>(d, c). \<lparr>date = d, count = c\<rparr>) (sort dm)),
           repositoryContributions =
             Some (map (\<lambda>(r, c). \<lparr>repo = Some r, rc_count = c, rc_isPrivate = False,
                                   rc_details = None\<rparr>) (sorted_desc snd rm)),
           languageStats = Some [],
           organizations = Some []\<rparr>"
proof -
  note d = fetch_with_rest_api_def
  from assms obtain resp where 1: "get_events up user 100 = Inr resp"
    by (cases "get_events up user 100") (auto simp: d)
  from assms 1 have 2: "status_code resp \<noteq> 404"
    by (auto simp: d split: if_splits)
  from assms 1 2 obtain start where 3: "fromisoformat start_date = Inr start"
    by (cases "fromisoformat start_date") (auto simp: d)
  from assms 1 2 3 obtain end_d where 4: "fromisoformat end_date = Inr end_d"
    by (cases "fromisoformat end_date") (auto simp: d)
  have eq3: "start = start_date" and eq4: "end_d = end_date"
    using 3 4 by (simp_all add: fromisoformat_same)
  from assms 1 2 3 4 obtain dm rm where
    5: "rest_loop (events_json resp) (start, 0) (end_d, 86399000000) [] [] = Inr (dm, rm)"
    by (cases "rest_loop (events_json resp) (start, 0) (end_d, 86399000000) [] []")
       (auto simp: d)
  from assms 1 2 3 4 5 have 6:
    "r = \<lparr>username = Some user,
           avatarUrl = None, bio = None, company = None, location = None,
           followers = None, following = None,
           publicRepos = None, privateRepos = None, totalRepos = None,
           totalContributions = Some (sum_list (map snd dm)),
           totalCommits = Some (sum_list (map snd dm)),
           pullRequests = Some 0,
           pullRequestReviews = Some 0,
           issues = Some 0,
           dailyContributions = Some (map (\<lambda>(d, c). \<lparr>date = d, count = c\<rparr>) (sort dm)),
           repositoryContributions =
             Some (map (\<lambda>(r, c). \<lparr>repo = Some r, rc_count = c, rc_isPrivate = False,
                                   rc_details = None\<rparr>) (sorted_desc snd rm)),
           languageStats = Some [],
           organizations = Some []\<rparr>"
    by (simp add: d Let_def)
  from that[OF 1 2 3[unfolded eq3] 4[unfolded eq4] 5[unfolded eq3 eq4] 6] show thesis .
qed

lemma rest_daily_dates:
  assumes "fetch_with_rest_api up user start_date end_date = Inr r"
  shows "\<exists>ds. dailyContributions r = Some ds \<and> sorted_wrt (<) (map date ds)"
  using assms
proof (cases rule: rest_api_Inr)
  case (ok resp dm rm)
  have "distinct (map fst dm)" using rest_loop_distinct[OF _ ok(5)] by simp
  then have "sorted_wrt (<) (map fst (sort dm))" by (rule sort_items_strict)
  moreover have "date \<circ> (\<lambda>(d, c). \<lparr>date = d, count = c\<rparr>) = fst"
    by (auto simp: fun_eq_iff)
  ultimately show ?thesis by (simp add: ok(6))
qed

lemma graphql_Inr:
  assumes "fetch_with_graphql up user start_date end_date token = Inr r"
  obtains (ok) v where
    "fromisoformat start_date = Inr start_date" "fromisoformat end_date = Inr end_date"
    "post_query up token start_date end_date = Inr (GraphqlData v)"
    "r = \<lparr>username = v_login v,
           avatarUrl = v_avatarUrl v,
           bio = v_bio v,
           company = v_company v,
           location = v_location v,
           followers = Some (v_followers v),
           following = Some (v_following v),
           publicRepos = Some (int (length (filter (\<lambda>r. \<not> node_isPrivate r) (v_repos_nodes v)))),
           privateRepos = Some (int (length (filter node_isPrivate (v_repos_nodes v)))),
           totalRepos = Some (v_repos_totalCount v),
           totalContributions = Some (v_calendar_totalContributions v),
           totalCommits = Some (v_totalCommitContributions v),
           pullRequests = Some (v_totalPullRequestContributions v),
           pullRequestReviews = Some (v_totalPullRequestReviewContributions v),
           issues = Some (v_totalIssueContributions v),
           dailyContributions = Some (daily_of_calendar (v_calendar_weeks v)),
           repositoryContributions =
             Some (sorted_desc rc_count
                     (repo_contributions_of (v_commitContributionsByRepository v))),
           languageStats = Some (language_stats (v_repos_nodes v)),
           organizations = Some (v_organizations v)\<rparr>"
proof -
  note d = fetch_with_graphql_def
  from assms obtain start where 1: "fromisoformat start_date = Inr start"
    by (cases "fromisoformat start_date") (auto simp: d)
  from assms 1 obtain end_d where 2: "fromisoformat end_date = Inr end_d"
    by (cases "fromisoformat end_date") (auto simp: d)
  have eq1: "start = start_date" and eq2: "end_d = end_date"
    using 1 2 by (simp_all add: fromisoformat_same)
  from assms 1 2 obtain g where 3: "post_query up token start end_d = Inr g"
    by (cases "post_query up token start end_d") (auto simp: d)
  from assms 1 2 3 obtain v where 4: "g = GraphqlData v"
    by (cases g) (auto simp: d)
  from assms 1 2 3 4 have 5:
    "r = \<lparr>username = v_login v,
           avatarUrl = v_avatarUrl v,
           bio = v_bio v,
           company = v_company v,
           location = v_location v,
           followers = Some (v_followers v),
           following = Some (v_following v),
           publicRepos = Some (int (length (filter (\<lambda>r. \<not> node_isPrivate r) (v_repos_nodes v)))),
           privateRepos = Some (int (length (filter node_isPrivate (v_repos_nodes v)))),
           totalRepos = Some (v_repos_totalCount v),
           totalContributions = Some (v_calendar_totalContributions v),
           totalCommits = Some (v_totalCommitContributions v),
           pullRequests = Some (v_totalPullRequestContributions v),
           pullRequestReviews = Some (v_totalPullRequestReviewContributions v),
           issues = Some (v_totalIssueContributions v),
           dailyContributions = Some (daily_of_calendar (v_calendar_weeks v)),
           repositoryContributions =
             Some (sorted_desc rc_count
                     (repo_contributions_of (v_commitContributionsByRepository v))),
           languageStats = Some (language_stats (v_repos_nodes v)),
           organizations = Some (v_organizations v)\<rparr>"
    by (simp add: d)
  from that[OF 1[unfolded eq1] 2[unfolded eq2] 3[unfolded eq1 eq2 4] 5] show thesis .
qed

lemma graphql_daily_dates:
  assumes "fetch_with_graphql up user start_date end_date token = Inr r"
  shows "\<exists>v. post_query up token start_date end_date = Inr (GraphqlData v) \<and>
           returned_dates (Inr r) = Some (concat (map (map day_date) (v_calendar_weeks v)))"
  using assms
proof (cases rule: graphql_Inr)
  case (ok v)
  have "map date (daily_of_calendar (v_calendar_weeks v)) =
          concat (map (map day_date) (v_calendar_weeks v))"
    by (simp add: daily_of_calendar_def map_concat comp_def)
  then show ?thesis using ok(3) by (auto simp: returned_dates_def ok(4))
qed

lemma rest_loop_no_push:
  "\<forall>ev\<in>set evs. ev_type ev = ''PushEvent'' \<longrightarrow>
       fromisoformat_dt (created_at ev) = Inr (created_at ev) \<and>
       \<not> (start \<le> created_at ev \<and> created_at ev \<le> end_dt) \<Longrightarrow>
     rest_loop evs start end_dt daily_map repo_map = Inr (daily_map, repo_map)"
  by (induction evs) auto

lemma rest_api_no_push:
  assumes "get_events up user 100 = Inr resp" "status_code resp \<noteq> 404"
    and "fromisoformat start_date = Inr start_date" "fromisoformat end_date = Inr end_date"
    and "\<forall>ev\<in>set (events_json resp). ev_type ev = ''PushEvent'' \<longrightarrow>
           fromisoformat_dt (created_at ev) = Inr (created_at ev) \<and>
           \<not> ((start_date, 0) \<le> created_at ev \<and> created_at ev \<le> (end_date, 86399000000))"
  shows "fetch_with_rest_api up user start_date end_date =
           Inr \<lparr>username = Some user,
                avatarUrl = None, bio = None, company = None, location = None,
                followers = None, following = None,
                publicRepos = None, privateRepos = None, totalRepos = None,
                totalContributions = Some 0, totalCommits = Some 0,
                pullRequests = Some 0, pullRequestReviews = Some 0, issues = Some 0,
                dailyContributions = Some [], repositoryContributions = Some [],
                languageStats = Some [], organizations = Some []\<rparr>"
  using assms(1-4) rest_loop_no_push[OF assms(5), of "[]" "[]"]
  by (simp add: fetch_with_rest_api_def sorted_desc_def)

lemma rest_api_zero_fields:
  assumes "fetch_with_rest_api up user start_date end_date = Inr r"
  shows "pullRequests r = Some 0 \<and> pullRequestReviews r = Some 0 \<and> issues r = Some 0 \<and>
         languageStats r = Some [] \<and> organizations r = Some []"
  using assms
proof (cases rule: rest_api_Inr)
  case (ok resp dm rm)
  show ?thesis by (simp add: ok(6))
qed

lemma unauthenticated_is_rest:
  "token = None \<or> token = Some [] \<Longrightarrow>
     fetch_user_contributions up user start_date end_date token =
       fetch_with_rest_api up user start_date end_date"
  by (auto simp: fetch_user_contributions_def)

lemma authenticated_is_graphql:
  "token \<noteq> [] \<Longrightarrow>
     fetch_user_contributions up user start_date end_date (Some token) =
       fetch_with_graphql up user start_date end_date token"
  by (simp add: fetch_user_contributions_def)

lemma graphql_ignores_user:
  "fetch_with_graphql up u1 start_date end_date token =
     fetch_with_graphql up u2 start_date end_date token"
  by (simp add: fetch_with_graphql_def)

lemma graphql_owner_fields:
  assumes "fetch_with_graphql up user start_date end_date token = Inr r"
  shows "\<exists>v. post_query up token start_date end_date = Inr (GraphqlData v) \<and>
           username r = v_login v \<and> avatarUrl r = v_avatarUrl v \<and> bio r = v_bio v \<and>
           company r = v_company v \<and> location r = v_location v \<and>
           followers r = Some (v_followers v) \<and> following r = Some (v_following v) \<and>
           totalRepos r = Some (v_repos_totalCount v) \<and>
           totalContributions r = Some (v_calendar_totalContributions v) \<and>
           totalCommits r = Some (v_totalCommitContributions v) \<and>
           dailyContributions r = Some (daily_of_calendar (v_calendar_weeks v)) \<and>
           repositoryContributions r =
             Some (sorted_desc rc_count
                     (repo_contributions_of (v_commitContributionsByRepository v))) \<and>
           languageStats r = Some (language_stats (v_repos_nodes v)) \<and>
           organizations r = Some (v_organizations v)"
  using assms
proof (cases rule: graphql_Inr)
  case (ok v)
  show ?thesis by (rule exI[of _ v]) (simp add: ok(3) ok(4))
qed

subsection \<open>Language statistics\<close>

lemma lang_add_keys:
  "map fst (lang_add m e) =
     (if node_name e \<in> fst ` set m then map fst m else map fst m @ [node_name e])"
  by (induction m) force+

lemma lang_add_size_of:
  "size_of (lang_add m e) k = size_of m k + (if node_name e = k then edge_size e else 0)"
  by (induction m) (auto simp: size_of_def)

lemma lang_add_names:
  "\<forall>kl\<in>set m. name (snd kl) = fst kl \<Longrightarrow> \<forall>kl\<in>set (lang_add m e). name (snd kl) = fst kl"
  by (induction m) (fastforce split: if_splits)+

lemma lang_add_sum:
  "sum_list (map (\<lambda>kl. size_bytes (snd kl)) (lang_add m e)) =
     sum_list (map (\<lambda>kl. size_bytes (snd kl)) m) + edge_size e"
  by (induction m) auto

lemma foldl_lang_add:
  "distinct (map fst m) \<Longrightarrow> \<forall>kl\<in>set m. name (snd kl) = fst kl \<Longrightarrow>
     distinct (map fst (foldl lang_add m es)) \<and>
     (\<forall>kl\<in>set (foldl lang_add m es). name (snd kl) = fst kl) \<and>
     fst ` set (foldl lang_add m es) = fst ` set m \<union> node_name ` set es \<and>
     (\<forall>k. size_of (foldl lang_add m es) k = size_of m k + named_total es k) \<and>
     sum_list (map (\<lambda>kl. size_bytes (snd kl)) (foldl lang_add m es)) =
       sum_list (map (\<lambda>kl. size_bytes (snd kl)) m) + sum_list (map edge_size es)"
proof (induction es arbitrary: m)
  case Nil
  then show ?case by (simp add: named_total_def)
next
  case (Cons e es)
  have d: "distinct (map fst (lang_add m e))"
    using Cons.prems(1) by (simp add: lang_add_keys)
  have n: "\<forall>kl\<in>set (lang_add m e). name (snd kl) = fst kl"
    using Cons.prems(2) by (rule lang_add_names)
  have k: "fst ` set (lang_add m e) = insert (node_name e) (fst ` set m)"
    using lang_add_keys[of m e] by (metis (no_types, lifting) insert_absorb list.set_map
        set_append list.simps(15) Un_insert_right sup_bot.right_neutral empty_set)
  from Cons.IH[OF d n] show ?case
    by (auto simp: k lang_add_size_of lang_add_sum named_total_def)
qed

lemma lang_map_facts:
  "distinct (map fst (lang_map repos)) \<and>
   (\<forall>kl\<in>set (lang_map repos). name (snd kl) = fst kl) \<and>
   fst ` set (lang_map repos) = node_name ` set (all_edges repos) \<and>
   (\<forall>k. size_of (lang_map repos) k = named_total (all_edges repos) k) \<and>
   sum_list (map (\<lambda>kl. size_bytes (snd kl)) (lang_map repos)) =
     sum_list (map edge_size (all_edges repos))"
  using foldl_lang_add[of "[]" "concat (map node_languages repos)"]
  by (simp add: lang_map_def all_edges_def size_of_def)

lemma lang_map_entry_size:
  assumes "kl \<in> set (lang_map repos)"
  shows "size_bytes (snd kl) = named_total (all_edges repos) (name (snd kl))"
proof -
  obtain k l where kl: "kl = (k, l)" by (cases kl)
  have "map_of (lang_map repos) k = Some l"
    using assms lang_map_facts[of repos] by (simp add: kl)
  then have "size_of (lang_map repos) k = size_bytes l" by (simp add: size_of_def)
  moreover have "name l = k" using assms lang_map_facts[of repos] kl by force
  ultimately show ?thesis using lang_map_facts[of repos] by (simp add: kl)
qed

lemma sum_list_insort_key:
  fixes f :: "'a \<Rightarrow> 'b::comm_monoid_add"
  shows "sum_list (map f (insort_key k x xs)) = f x + sum_list (map f xs)"
  by (induction xs) (auto simp: add.left_commute)

lemma sum_list_sort_key:
  fixes f :: "'a \<Rightarrow> 'b::comm_monoid_add"
  shows "sum_list (map f (sort_key k xs)) = sum_list (map f xs)"
  by (induction xs) (auto simp: sum_list_insort_key)

lemma sum_list_sorted_desc:
  fixes f :: "'a \<Rightarrow> 'b::comm_monoid_add"
  shows "sum_list (map f (sorted_desc k xs)) = sum_list (map f xs)"
proof -
  have "sum_list (map f (sorted_desc k xs)) = sum_list (rev (map f (sort_key k (rev xs))))"
    by (simp add: sorted_desc_def rev_map)
  also have "\<dots> = sum_list (map f (sort_key k (rev xs)))" by (rule sum_list_rev)
  also have "\<dots> = sum_list (map f (rev xs))" by (rule sum_list_sort_key)
  also have "\<dots> = sum_list (rev (map f xs))" by (simp add: rev_map)
  also have "\<dots> = sum_list (map f xs)" by (rule sum_list_rev)
  finally show ?thesis .
qed

lemma set_sorted_desc: "set (sorted_desc k xs) = set xs"
  by (simp add: sorted_desc_def)

lemma sorted_desc_descending: "sorted (rev (map k (sorted_desc k xs)))"
  by (simp add: sorted_desc_def rev_map)

lemma distinct_map_sorted_desc: "distinct (map f (sorted_desc k xs)) = distinct (map f xs)"
  by (simp add: sorted_desc_def distinct_map)

lemma total_size_eq:
  "total_size (lang_map repos) =
     (if sum_list (map edge_size (all_edges repos)) = 0 then 1
      else sum_list (map edge_size (all_edges repos)))"
  using lang_map_facts[of repos] by (simp add: total_size_def Let_def)

lemma language_stats_member:
  assumes "l \<in> set (language_stats repos)"
  shows "size_bytes l = named_total (all_edges repos) (name l) \<and>
         percentage l = real (size_bytes l) / real (total_size (lang_map repos)) * 100"
proof -
  from assms obtain kl where kl: "kl \<in> set (lang_map repos)"
    and l: "l = \<lparr>name = name (snd kl), color = color (snd kl),
                 size_bytes = size_bytes (snd kl), repoCount = repoCount (snd kl),
                 percentage = real (size_bytes (snd kl)) / real (total_size (lang_map repos)) * 100\<rparr>"
    by (auto simp: language_stats_def Let_def set_sorted_desc)
  from lang_map_entry_size[OF kl] show ?thesis by (simp add: l)
qed

lemma language_stats_sizes:
  "sum_list (map size_bytes (language_stats repos)) = sum_list (map edge_size (all_edges repos))"
proof -
  have "sum_list (map size_bytes (language_stats repos)) =
          sum_list (map (\<lambda>kl. size_bytes (snd kl)) (lang_map repos))"
    by (simp add: language_stats_def Let_def sum_list_sorted_desc comp_def)
  then show ?thesis using lang_map_facts[of repos] by simp
qed

lemma sum_list_scaled:
  "sum_list (map (\<lambda>x. real (f x) / t * 100) xs) = real (sum_list (map f xs)) / t * 100"
  by (induction xs) (simp_all add: add_divide_distrib distrib_right)

lemma language_stats_percentages:
  "sum_list (map percentage (language_stats repos)) =
     real (sum_list (map edge_size (all_edges repos))) / real (total_size (lang_map repos)) * 100"
proof -
  have "sum_list (map percentage (language_stats repos)) =
          sum_list (map (\<lambda>kl. real (size_bytes (snd kl)) / real (total_size (lang_map repos)) * 100)
                     (lang_map repos))"
    by (simp add: language_stats_def Let_def sum_list_sorted_desc comp_def)
  also have "\<dots> = real (sum_list (map (\<lambda>kl. size_bytes (snd kl)) (lang_map repos)))
                    / real (total_size (lang_map repos)) * 100"
    by (rule sum_list_scaled)
  finally show ?thesis using lang_map_facts[of repos] by simp
qed

lemma language_stats_names:
  "distinct (map name (language_stats repos)) \<and>
   name ` set (language_stats repos) = node_name ` set (all_edges repos)"
proof -
  let ?m = "lang_map repos"
  let ?st = "\<lambda>kl. \<lparr>name = name (snd kl), color = color (snd kl),
                    size_bytes = size_bytes (snd kl), repoCount = repoCount (snd kl),
                    percentage = real (size_bytes (snd kl)) / real (total_size ?m) * 100\<rparr>"
  have eq: "map name (map ?st ?m) = map fst ?m"
    using lang_map_facts[of repos] by (simp add: comp_def)
  have "distinct (map name (language_stats repos)) = distinct (map name (map ?st ?m))"
    by (simp only: language_stats_def Let_def distinct_map_sorted_desc)
  moreover have "name ` set (language_stats repos) = set (map name (map ?st ?m))"
    by (simp add: language_stats_def Let_def set_sorted_desc image_image)
  ultimately show ?thesis using lang_map_facts[of repos] unfolding eq by simp
qed

lemma language_stats_zero:
  assumes "sum_list (map edge_size (all_edges repos)) = 0" "l \<in> set (language_stats repos)"
  shows "percentage l = 0"
proof -
  have "size_bytes l \<le> sum_list (map size_bytes (language_stats repos))"
    using assms(2) by (simp add: member_le_sum_list)
  then have "size_bytes l = 0" using assms(1) by (simp add: language_stats_sizes)
  then show ?thesis using language_stats_member[OF assms(2)] by simp
qed

lemma language_stats_descending: "sorted (rev (map size_bytes (language_stats repos)))"
  by (simp add: language_stats_def Let_def sorted_desc_descending)

section \<open>Facts about the request handler\<close>

lemma scalar_one_or_none_single [simp]: "scalar_one_or_none [r] = Inr (Some r)"
  by (simp add: scalar_one_or_none_def)

lemma scalar_one_or_none_empty [simp]: "scalar_one_or_none [] = Inr None"
  by (simp add: scalar_one_or_none_def)

lemma filter_single_remove1: "filter P xs = [x] \<Longrightarrow> filter P (remove1 x xs) = []"
proof (induction xs)
  case Nil
  then show ?case by simp
next
  case (Cons a xs)
  show ?case
  proof (cases "P a")
    case True
    with Cons.prems have "a = x" "filter P xs = []" by simp_all
    then show ?thesis by simp
  next
    case False
    with Cons.prems have f: "filter P xs = [x]" by simp
    then have "x \<in> set (filter P xs)" by simp
    then have "P x" by simp
    with False have "a \<noteq> x" by blast
    with False Cons.IH[OF f] show ?thesis by simp
  qed
qed

lemma select_stats_removed:
  assumes "select_stats d user year = [row]"
  shows "select_stats (d\<lparr>tbl_yearbook_stats := remove1 row (tbl_yearbook_stats d)\<rparr>) user year = []"
  using assms filter_single_remove1 by (simp add: select_stats_def)

lemma select_stats_append:
  "select_stats (d\<lparr>tbl_yearbook_stats := tbl_yearbook_stats d @ [new]\<rparr>) user year =
     select_stats d user year @ (if ys_username new = user \<and> ys_year new = year then [new] else [])"
  by (simp add: select_stats_def)

lemma cache_is_valid_iff:
  "cache_is_valid up user token row \<longleftrightarrow>
     \<not> (\<exists>t1. fetch_user_latest_push_time up user token = Inr (Some t1) \<and> ys_updated_at row < t1)"
  by (auto simp: cache_is_valid_def split: sum.splits option.splits)

lemma fetch_and_store_fail:
  "fetch_user_contributions up user (year, 1, 1) (year, 12, 31) token = Inl e \<Longrightarrow>
     fetch_and_store up now d user year token = (Inl (HTTPException 400 e), d)"
  by (simp add: fetch_and_store_def)

lemma fetch_and_store_cases:
  assumes "fetch_and_store up now d user year token = (res, d')"
  shows "(\<exists>e. res = Inl e \<and> d' = d) \<or>
         (\<exists>new. res = Inr \<lparr>body = ys_columns.truncate new, cached = False\<rparr> \<and>
                d' = d\<lparr>tbl_yearbook_stats := tbl_yearbook_stats d @ [new]\<rparr> \<and>
                ys_username new = user \<and> ys_year new = year \<and> ys_updated_at new = now)"
proof (cases "fetch_user_contributions up user (year, 1, 1) (year, 12, 31) token")
  case (Inl e)
  with assms show ?thesis by (auto simp: fetch_and_store_def)
next
  case (Inr data)
  show ?thesis
  proof (cases "calculate_streaks year
                  (case dailyContributions data of None \<Rightarrow> [] | Some ds \<Rightarrow> ds)")
    case (Inl e)
    with Inr assms show ?thesis by (auto simp: fetch_and_store_def)
  next
    case r: (Inr t)
    obtain l c n where t: "t = (l, c, n)" by (cases t)
    from assms Inr r t show ?thesis
      by (simp add: fetch_and_store_def Let_def) force
  qed
qed

lemma fetch_and_store_ok:
  assumes "fetch_user_contributions up user (year, 1, 1) (year, 12, 31) token = Inr data"
    and "calculate_streaks year (case dailyContributions data of None \<Rightarrow> [] | Some ds \<Rightarrow> ds)
           = Inr (l, c, n)"
  shows "\<exists>resp d'. fetch_and_store up now d user year token = (Inr resp, d') \<and>
           ys_longest_streak (body resp) = l \<and> ys_current_streak (body resp) = c \<and>
           ys_active_days (body resp) = n \<and>
           ys_daily_contributions (body resp) =
             (case dailyContributions data of None \<Rightarrow> [] | Some ds \<Rightarrow> ds)"
  using assms by (simp add: fetch_and_store_def Let_def ys_columns.truncate_def)

lemma get_stats_hit:
  assumes "resolve_token d user token0 = Inr token" "select_stats d user year = [row]"
    and "cache_is_valid up user token row"
  shows "get_yearbook_stats up now d user year token0 =
           (Inr \<lparr>body = ys_columns.truncate row, cached = True\<rparr>, d, [Probe user token])"
  using assms by (simp add: get_yearbook_stats_def)

lemma get_stats_stale:
  assumes "resolve_token d user token0 = Inr token" "select_stats d user year = [row]"
    and "\<not> cache_is_valid up user token row"
    and "fetch_and_store up now (d\<lparr>tbl_yearbook_stats := remove1 row (tbl_yearbook_stats d)\<rparr>)
           user year token = (res, d')"
  shows "get_yearbook_stats up now d user year token0 =
           (res, d', [Probe user token, Fetch user (year, 1, 1) (year, 12, 31) token])"
  using assms by (simp add: get_yearbook_stats_def)

lemma get_stats_miss:
  assumes "resolve_token d user token0 = Inr token" "select_stats d user year = []"
    and "fetch_and_store up now d user year token = (res, d')"
  shows "get_yearbook_stats up now d user year token0 =
           (res, d', [Fetch user (year, 1, 1) (year, 12, 31) token])"
  using assms by (simp add: get_yearbook_stats_def)

lemma stored_outcome:
  assumes "fetch_and_store up now d user year token = (res, d')"
    and "select_stats d user year = []"
  shows "(\<forall>err. res = Inl err \<longrightarrow> d' = d \<and> select_stats d' user year = []) \<and>
         (\<forall>resp. res = Inr resp \<longrightarrow> \<not> cached resp \<and>
            (\<exists>new. select_stats d' user year = [new] \<and>
                   tbl_yearbook_stats d' = tbl_yearbook_stats d @ [new] \<and>
                   body resp = ys_columns.truncate new \<and> ys_updated_at new = now))"
  using fetch_and_store_cases[OF assms(1)] assms(2)
  by (auto simp: select_stats_append)

lemma later_request_refetches:
  assumes "resolve_token d user token0 = Inr token" "select_stats d' user year = []"
    and "tbl_user_tokens d' = tbl_user_tokens d"
  shows "snd (snd (get_yearbook_stats up' now' d' user year token0)) =
           [Fetch user (year, 1, 1) (year, 12, 31) token]"
proof -
  have "select_token d' user = select_token d user"
    using assms(3) by (simp add: select_token_def)
  then have "resolve_token d' user token0 = resolve_token d user token0"
    by (simp add: resolve_token_def)
  then have "resolve_token d' user token0 = Inr token"
    using assms(1) by simp
  then show ?thesis
    using assms(2) by (simp add: get_yearbook_stats_def split: prod.splits)
qed

section \<open>Claims about the streaks\<close>

text \<open>
  C2 (as amended).  The current streak is computed by walking backward from the end
  boundary, at most 365 steps: with \<open>t = 0\<close> when the boundary day itself is active and
  \<open>t = 1\<close> when it is not (the miss on day 0 is tolerated), the result \<open>k\<close> counts the active
  days at offsets \<open>t, \<dots>, t + k - 1\<close>, and the day at offset \<open>t + k\<close> is inactive unless the
  365 steps are used up.  The request handler always walks from December 31 of the queried
  year.  For the six days of the scenario the walk from January 6 gives 3, the walk from
  January 3 (an inactive day) gives 2, and the handler's own walk for 2024 gives 0.
\<close>

theorem current_streak_walks_back:
  "(valid_ymd end_d \<and> 365 \<le> toordinal end_d \<longrightarrow>
      (\<exists>k. current_streak_from end_d ds = Inr k \<and>
         (let A = set (map date (active_days ds)); t = (if hit end_d A 0 then 0 else 1) in
            k + t \<le> 365 \<and> (\<forall>j<k. hit end_d A (j + t)) \<and>
            (k + t < 365 \<longrightarrow> \<not> hit end_d A (k + t)))))
   \<and> (1 \<le> year \<and> year \<le> 9999 \<longrightarrow>
        current_streak year ds = current_streak_from (year, 12, 31) ds
        \<and> valid_ymd (year, 12, 31) \<and> 365 \<le> toordinal (year, 12, 31))
   \<and> current_streak_from (2024, 1, 6) scenario_days = Inr 3
   \<and> current_streak_from (2024, 1, 3) scenario_days = Inr 2
   \<and> current_streak 2024 scenario_days = Inr 0"
proof (intro conjI impI)
  assume "valid_ymd end_d \<and> 365 \<le> toordinal end_d"
  then show "\<exists>k. current_streak_from end_d ds = Inr k \<and>
         (let A = set (map date (active_days ds)); t = (if hit end_d A 0 then 0 else 1) in
            k + t \<le> 365 \<and> (\<forall>j<k. hit end_d A (j + t)) \<and>
            (k + t < 365 \<longrightarrow> \<not> hit end_d A (k + t)))"
    using current_streak_from_walk by blast
next
  assume "1 \<le> year \<and> year \<le> 9999"
  then show "current_streak year ds = current_streak_from (year, 12, 31) ds"
    by (simp add: current_streak_dec31)
next
  assume "1 \<le> year \<and> year \<le> 9999"
  then show "valid_ymd (year, 12, 31)" by (simp add: valid_dec31)
next
  assume "1 \<le> year \<and> year \<le> 9999"
  then show "365 \<le> toordinal (year, 12, 31)" by (simp add: toordinal_dec31)
next
  show "current_streak_from (2024, 1, 6) scenario_days = Inr 3" by code_simp
next
  show "current_streak_from (2024, 1, 3) scenario_days = Inr 2" by code_simp
next
  show "current_streak 2024 scenario_days = Inr 0" by code_simp
qed

theorem current_streak_walks_back_witness:
  "(1::int) \<le> 2024 \<and> (2024::int) \<le> 9999
   \<and> valid_ymd (2024, 12, 31) \<and> 365 \<le> toordinal (2024, 12, 31)
   \<and> current_streak 2024 year_end_days = current_streak_from (2024, 12, 31) year_end_days
   \<and> (\<exists>k. current_streak_from (2024, 12, 31) year_end_days = Inr k \<and>
         (let A = set (map date (active_days year_end_days));
              t = (if hit (2024, 12, 31) A 0 then 0 else 1) in
            k + t \<le> 365 \<and> (\<forall>j<k. hit (2024, 12, 31) A (j + t)) \<and>
            (k + t < 365 \<longrightarrow> \<not> hit (2024, 12, 31) A (k + t))))"
  using current_streak_walks_back [of "(2024, 12, 31)" year_end_days 2024]
  by simp

text \<open>The walk from January 3 does not give 0: the miss on day 0 is skipped, not counted as the end.\<close>

theorem current_streak_jan3_counterexample:
  "current_streak_from (2024, 1, 3) scenario_days \<noteq> Inr 0"
  by code_simp

text \<open>
  C3.  The longest streak is the length of the longest run of the active days (count > 0)
  sorted by date, where a gap of exactly one day continues a run, any other gap starts a new
  run, and the last run counts; an active day whose date does not parse makes the
  computation fail.  For the six days of the scenario it is 3.
\<close>

theorem longest_streak_is_longest_run:
  "longest_streak ds =
     (if \<forall>d\<in>set (active_days ds). fromisoformat (date d) = Inr (date d)
      then Inr (longest_run (map (\<lambda>d. toordinal (date d)) (sort_key date (active_days ds))))
      else Inl ValueError)
   \<and> longest_streak scenario_days = Inr 3"
proof
  show "longest_streak ds =
     (if \<forall>d\<in>set (active_days ds). fromisoformat (date d) = Inr (date d)
      then Inr (longest_run (map (\<lambda>d. toordinal (date d)) (sort_key date (active_days ds))))
      else Inl ValueError)"
    using longest_streak_valid[of ds] longest_streak_invalid[of ds] by (simp split: if_splits)
next
  show "longest_streak scenario_days = Inr 3" by code_simp
qed

theorem longest_streak_is_longest_run_witness:
  "longest_streak year_end_days = Inr 3
   \<and> longest_run (map (\<lambda>d. toordinal (date d)) (sort_key date (active_days year_end_days))) = 3"
proof -
  have v: "\<forall>d\<in>set (active_days year_end_days). fromisoformat (date d) = Inr (date d)"
    by code_simp
  have l: "longest_streak year_end_days = Inr 3" by code_simp
  from longest_streak_is_longest_run [of year_end_days] v l show ?thesis by simp
qed

text \<open>
  C9.  When the dates of the daily contributions are distinct, the current streak the handler
  computes never exceeds the longest streak it computes.
\<close>

theorem current_streak_le_longest_streak:
  "distinct (map date ds) \<Longrightarrow> calculate_streaks year ds = Inr (longest, cur, n) \<Longrightarrow>
     cur \<le> longest"
  by (rule streaks_ordered)

theorem current_streak_le_longest_streak_witness:
  "distinct (map date year_end_days) \<and> calculate_streaks 2024 year_end_days = Inr (3, 3, 5)
   \<and> (3::nat) \<le> 3"
proof -
  have d: "distinct (map date year_end_days)" by code_simp
  have c: "calculate_streaks 2024 year_end_days = Inr (3, 3, 5)" by code_simp
  from current_streak_le_longest_streak [OF d c] d c show ?thesis by simp
qed


section \<open>Claims about the fetches\<close>

text \<open>
  C4.  For every list of fetched repositories, each entry of the language statistics carries
  the byte size accumulated for its language over all repositories, and its percentage is
  that size divided by the total size of all languages, times 100, where a total of 0 is
  replaced by 1 so that the divisor is never 0; the percentages sum to 100 when the total is
  positive and are all 0 when the total is 0 (percentages are real numbers here, the rounding
  of floating point is left out); the list is sorted descending by size, with one entry per
  language.  It is the \<^verbatim>\<open>languageStats\<close> of the record an authenticated fetch returns.
\<close>

theorem language_percentages:
  "(\<forall>l\<in>set (language_stats repos).
       size_bytes l = named_total (all_edges repos) (name l) \<and>
       percentage l =
         real (size_bytes l) / real (if total_bytes repos = 0 then 1 else total_bytes repos) * 100)
   \<and> total_size (lang_map repos) = (if total_bytes repos = 0 then 1 else total_bytes repos)
   \<and> total_size (lang_map repos) \<noteq> 0
   \<and> sum_list (map size_bytes (language_stats repos)) = total_bytes repos
   \<and> (0 < total_bytes repos \<longrightarrow> sum_list (map percentage (language_stats repos)) = 100)
   \<and> (total_bytes repos = 0 \<longrightarrow> (\<forall>l\<in>set (language_stats repos). percentage l = 0))
   \<and> sorted (rev (map size_bytes (language_stats repos)))
   \<and> distinct (map name (language_stats repos))
   \<and> name ` set (language_stats repos) = node_name ` set (all_edges repos)
   \<and> (\<forall>r. fetch_with_graphql up user start_date end_date token = Inr r \<longrightarrow>
         (\<exists>v. post_query up token start_date end_date = Inr (GraphqlData v) \<and>
              languageStats r = Some (language_stats (v_repos_nodes v))))"
proof -
  have ts: "total_size (lang_map repos) = (if total_bytes repos = 0 then 1 else total_bytes repos)"
    by (simp add: total_size_eq total_bytes_def)
  have a: "\<forall>l\<in>set (language_stats repos).
       size_bytes l = named_total (all_edges repos) (name l) \<and>
       percentage l =
         real (size_bytes l) / real (if total_bytes repos = 0 then 1 else total_bytes repos) * 100"
    using language_stats_member[of _ repos] unfolding ts by blast
  have b: "total_size (lang_map repos) \<noteq> 0" by (simp add: ts)
  have c: "sum_list (map size_bytes (language_stats repos)) = total_bytes repos"
    by (simp add: language_stats_sizes total_bytes_def)
  have d: "0 < total_bytes repos \<longrightarrow> sum_list (map percentage (language_stats repos)) = 100"
  proof
    assume pos: "0 < total_bytes repos"
    then have "total_size (lang_map repos) = total_bytes repos" by (simp add: ts)
    then have "sum_list (map percentage (language_stats repos)) =
                 real (total_bytes repos) / real (total_bytes repos) * 100"
      by (simp add: language_stats_percentages total_bytes_def)
    then show "sum_list (map percentage (language_stats repos)) = 100" using pos by simp
  qed
  have e: "total_bytes repos = 0 \<longrightarrow> (\<forall>l\<in>set (language_stats repos). percentage l = 0)"
    using language_stats_zero[of repos] by (simp add: total_bytes_def)
  have f: "sorted (rev (map size_bytes (language_stats repos)))"
    by (rule language_stats_descending)
  have g: "distinct (map name (language_stats repos))"
    and h: "name ` set (language_stats repos) = node_name ` set (all_edges repos)"
    using language_stats_names[of repos] by simp_all
  have i: "\<forall>r. fetch_with_graphql up user start_date end_date token = Inr r \<longrightarrow>
         (\<exists>v. post_query up token start_date end_date = Inr (GraphqlData v) \<and>
              languageStats r = Some (language_stats (v_repos_nodes v)))"
    using graphql_owner_fields[of up user start_date end_date token] by blast
  from a ts b c d e f g h i show ?thesis by blast
qed

theorem language_percentages_witness:
  "total_bytes sample_repos = 1000
   \<and> sum_list (map percentage (language_stats sample_repos)) = 100
   \<and> map size_bytes (language_stats sample_repos) = [500, 500]
   \<and> map name (language_stats sample_repos) = [''Python'', ''C'']"
proof -
  have t: "total_bytes sample_repos = 1000" by code_simp
  have s: "map size_bytes (language_stats sample_repos) = [500, 500]" by code_simp
  have n: "map name (language_stats sample_repos) = [''Python'', ''C'']" by code_simp
  from language_percentages [of sample_repos] t
  have "sum_list (map percentage (language_stats sample_repos)) = 100" by simp
  with t s n show ?thesis by simp
qed

text \<open>
  C5.  A fetch without credential (no token, or an empty one) that returns a record reports
  \<^verbatim>\<open>pullRequests\<close>, \<^verbatim>\<open>pullRequestReviews\<close> and \<^verbatim>\<open>issues\<close> as 0 and \<^verbatim>\<open>languageStats\<close> and
  \<^verbatim>\<open>organizations\<close> as empty lists, all five keys present.  When the events request is answered
  (not with status 404), the year's two boundary dates parse, and no push event of the answer
  lies in the range, the fetch does return a record, with \<^verbatim>\<open>totalCommits\<close> and
  \<^verbatim>\<open>totalContributions\<close> 0 and empty daily and repository contributions.
\<close>

theorem unauthenticated_fetch_shape:
  "token = None \<or> token = Some [] \<Longrightarrow>
   (\<forall>r. fetch_user_contributions up user start_date end_date token = Inr r \<longrightarrow>
        pullRequests r = Some 0 \<and> pullRequestReviews r = Some 0 \<and> issues r = Some 0 \<and>
        languageStats r = Some [] \<and> organizations r = Some [])
   \<and> (get_events up user 100 = Inr resp \<and> status_code resp \<noteq> 404 \<and>
       fromisoformat start_date = Inr start_date \<and> fromisoformat end_date = Inr end_date \<and>
       (\<forall>ev\<in>set (events_json resp). ev_type ev = ''PushEvent'' \<longrightarrow>
           fromisoformat_dt (created_at ev) = Inr (created_at ev) \<and>
           \<not> ((start_date, 0) \<le> created_at ev \<and> created_at ev \<le> (end_date, 86399000000)))
       \<longrightarrow> (\<exists>r. fetch_user_contributions up user start_date end_date token = Inr r \<and>
              totalCommits r = Some 0 \<and> totalContributions r = Some 0 \<and>
              dailyContributions r = Some [] \<and> repositoryContributions r = Some [] \<and>
              pullRequests r = Some 0 \<and> pullRequestReviews r = Some 0 \<and> issues r = Some 0 \<and>
              languageStats r = Some [] \<and> organizations r = Some []))"
proof (intro conjI allI impI)
  fix r
  assume t: "token = None \<or> token = Some []"
    and "fetch_user_contributions up user start_date end_date token = Inr r"
  then have "fetch_with_rest_api up user start_date end_date = Inr r"
    by (simp add: unauthenticated_is_rest)
  from rest_api_zero_fields[OF this]
  show "pullRequests r = Some 0" "pullRequestReviews r = Some 0" "issues r = Some 0"
    "languageStats r = Some []" "organizations r = Some []" by simp_all
next
  assume t: "token = None \<or> token = Some []"
    and h: "get_events up user 100 = Inr resp \<and> status_code resp \<noteq> 404 \<and>
       fromisoformat start_date = Inr start_date \<and> fromisoformat end_date = Inr end_date \<and>
       (\<forall>ev\<in>set (events_json resp). ev_type ev = ''PushEvent'' \<longrightarrow>
           fromisoformat_dt (created_at ev) = Inr (created_at ev) \<and>
           \<not> ((start_date, 0) \<le> created_at ev \<and> created_at ev \<le> (end_date, 86399000000)))"
  from h have h1: "get_events up user 100 = Inr resp" and h2: "status_code resp \<noteq> 404"
    and h3: "fromisoformat start_date = Inr start_date"
    and h4: "fromisoformat end_date = Inr end_date"
    and h5: "\<forall>ev\<in>set (events_json resp). ev_type ev = ''PushEvent'' \<longrightarrow>
           fromisoformat_dt (created_at ev) = Inr (created_at ev) \<and>
           \<not> ((start_date, 0) \<le> created_at ev \<and> created_at ev \<le> (end_date, 86399000000))"
    by blast+
  have "fetch_with_rest_api up user start_date end_date =
           Inr \<lparr>username = Some user,
                avatarUrl = None, bio = None, company = None, location = None,
                followers = None, following = None,
                publicRepos = None, privateRepos = None, totalRepos = None,
                totalContributions = Some 0, totalCommits = Some 0,
                pullRequests = Some 0, pullRequestReviews = Some 0, issues = Some 0,
                dailyContributions = Some [], repositoryContributions = Some [],
                languageStats = Some [], organizations = Some []\<rparr>"
    by (rule rest_api_no_push[OF h1 h2 h3 h4 h5])
  then show "\<exists>r. fetch_user_contributions up user start_date end_date token = Inr r \<and>
              totalCommits r = Some 0 \<and> totalContributions r = Some 0 \<and>
              dailyContributions r = Some [] \<and> repositoryContributions r = Some [] \<and>
              pullRequests r = Some 0 \<and> pullRequestReviews r = Some 0 \<and> issues r = Some 0 \<and>
              languageStats r = Some [] \<and> organizations r = Some []"
    using t by (simp add: unauthenticated_is_rest)
qed

theorem unauthenticated_fetch_shape_witness:
  "\<exists>r. fetch_user_contributions (upstream_of sample_viewer sample_events) ''octocat''
           (2025, 1, 1) (2025, 12, 31) None = Inr r \<and>
        totalCommits r = Some 0 \<and> totalContributions r = Some 0 \<and>
        dailyContributions r = Some [] \<and> repositoryContributions r = Some [] \<and>
        pullRequests r = Some 0 \<and> pullRequestReviews r = Some 0 \<and> issues r = Some 0 \<and>
        languageStats r = Some [] \<and> organizations r = Some []"
proof -
  let ?up = "upstream_of sample_viewer sample_events"
  let ?resp = "\<lparr>status_code = 200, events_json = take 100 sample_events\<rparr>"
  have 1: "get_events ?up ''octocat'' 100 = Inr ?resp" by (simp add: upstream_of_def)
  have 2: "status_code ?resp \<noteq> 404" by simp
  have 3: "fromisoformat (2025, 1, 1) = Inr (2025, 1, 1)" by code_simp
  have 4: "fromisoformat (2025, 12, 31) = Inr (2025, 12, 31)" by code_simp
  have 5: "\<forall>ev\<in>set (events_json ?resp). ev_type ev = ''PushEvent'' \<longrightarrow>
           fromisoformat_dt (created_at ev) = Inr (created_at ev) \<and>
           \<not> (((2025, 1, 1), 0) \<le> created_at ev \<and> created_at ev \<le> ((2025, 12, 31), 86399000000))"
    by code_simp
  from unauthenticated_fetch_shape [of None ?up "''octocat''" "(2025, 1, 1)" "(2025, 12, 31)" ?resp]
    1 2 3 4 5
  show ?thesis by blast
qed

text \<open>
  C7 (as amended).  In every record an unauthenticated fetch returns, the daily contributions
  have strictly increasing dates (they are the sorted items of a dict keyed by date).  In a
  record an authenticated fetch returns, the daily contributions are the days of the upstream
  calendar, weeks flattened in upstream order: their dates are strictly increasing exactly
  when the upstream calendar's are.
\<close>

theorem daily_dates_order:
  "(token = None \<or> token = Some [] \<longrightarrow>
      (\<forall>r. fetch_user_contributions up user start_date end_date token = Inr r \<longrightarrow>
         (\<exists>ds. dailyContributions r = Some ds \<and> sorted_wrt (<) (map date ds))))
   \<and> (t \<noteq> [] \<longrightarrow>
      (\<forall>r. fetch_user_contributions up user start_date end_date (Some t) = Inr r \<longrightarrow>
         (\<exists>v. post_query up t start_date end_date = Inr (GraphqlData v) \<and>
              returned_dates (Inr r) = Some (concat (map (map day_date) (v_calendar_weeks v))))))"
proof (intro conjI allI impI)
  fix r
  assume "token = None \<or> token = Some []"
    and "fetch_user_contributions up user start_date end_date token = Inr r"
  then have "fetch_with_rest_api up user start_date end_date = Inr r"
    by (simp add: unauthenticated_is_rest)
  then show "\<exists>ds. dailyContributions r = Some ds \<and> sorted_wrt (<) (map date ds)"
    by (rule rest_daily_dates)
next
  fix r
  assume "t \<noteq> []"
    and "fetch_user_contributions up user start_date end_date (Some t) = Inr r"
  then have "fetch_with_graphql up user start_date end_date t = Inr r"
    by (simp add: authenticated_is_graphql)
  then show "\<exists>v. post_query up t start_date end_date = Inr (GraphqlData v) \<and>
              returned_dates (Inr r) = Some (concat (map (map day_date) (v_calendar_weeks v)))"
    by (rule graphql_daily_dates)
qed

theorem daily_dates_order_witness:
  "returned_dates (fetch_user_contributions (upstream_of sample_viewer sample_events) ''octocat''
      (2024, 1, 1) (2024, 12, 31) None) = Some [(2024, 3, 1), (2024, 3, 2)]
   \<and> sorted_wrt (<) [(2024, 3, 1), (2024, 3, 2) :: iso_date]
   \<and> returned_dates (fetch_user_contributions (upstream_of sample_viewer sample_events) ''octocat''
      (2024, 1, 1) (2024, 12, 31) (Some ''tok'')) = Some [(2024, 1, 1), (2024, 1, 2)]"
proof -
  let ?up = "upstream_of sample_viewer sample_events"
  let ?f = "fetch_user_contributions ?up ''octocat'' (2024, 1, 1) (2024, 12, 31) None"
  have rd: "returned_dates ?f = Some [(2024, 3, 1), (2024, 3, 2)]" by code_simp
  then obtain r where r: "?f = Inr r" by (cases ?f) (auto simp: returned_dates_def)
  from daily_dates_order [of None ?up "''octocat''" "(2024, 1, 1)" "(2024, 12, 31)"] r
  obtain ds where ds: "dailyContributions r = Some ds" "sorted_wrt (<) (map date ds)" by blast
  from rd r ds(1) have "map date ds = [(2024, 3, 1), (2024, 3, 2)]"
    by (simp add: returned_dates_def)
  with ds(2) have s: "sorted_wrt (<) [(2024, 3, 1), (2024, 3, 2) :: iso_date]" by simp
  have g: "returned_dates (fetch_user_contributions ?up ''octocat''
      (2024, 1, 1) (2024, 12, 31) (Some ''tok'')) = Some [(2024, 1, 1), (2024, 1, 2)]"
    by code_simp
  from rd s g show ?thesis by blast
qed

text \<open>
  An authenticated fetch answered with a calendar whose days are out of order returns them
  out of order.
\<close>

theorem daily_dates_unordered_counterexample:
  "returned_dates (fetch_user_contributions (upstream_of unordered_viewer sample_events) ''octocat''
      (2024, 1, 1) (2024, 12, 31) (Some ''tok'')) = Some [(2024, 1, 2), (2024, 1, 1)]
   \<and> \<not> sorted_wrt (<) [(2024, 1, 2), (2024, 1, 1) :: iso_date]"
  by code_simp

text \<open>
  C8.  With a non-empty token the fetch does not depend on the requested subject: every
  request it sends carries the token only, and the record it returns is built from the
  \<^verbatim>\<open>viewer\<close> of the answer (the owner of the token): user name, profile, totals, calendar,
  repositories, languages and organizations.
\<close>

theorem authenticated_fetch_ignores_subject:
  "token \<noteq> [] \<Longrightarrow>
     fetch_user_contributions up u1 start_date end_date (Some token) =
       fetch_user_contributions up u2 start_date end_date (Some token)
     \<and> (\<forall>r. fetch_user_contributions up u1 start_date end_date (Some token) = Inr r \<longrightarrow>
          (\<exists>v. post_query up token start_date end_date = Inr (GraphqlData v) \<and>
             username r = v_login v \<and> avatarUrl r = v_avatarUrl v \<and> bio r = v_bio v \<and>
             company r = v_company v \<and> location r = v_location v \<and>
             followers r = Some (v_followers v) \<and> following r = Some (v_following v) \<and>
             totalRepos r = Some (v_repos_totalCount v) \<and>
             totalContributions r = Some (v_calendar_totalContributions v) \<and>
             totalCommits r = Some (v_totalCommitContributions v) \<and>
             dailyContributions r = Some (daily_of_calendar (v_calendar_weeks v)) \<and>
             repositoryContributions r =
               Some (sorted_desc rc_count
                       (repo_contributions_of (v_commitContributionsByRepository v))) \<and>
             languageStats r = Some (language_stats (v_repos_nodes v)) \<and>
             organizations r = Some (v_organizations v)))"
proof (intro conjI allI impI)
  assume "token \<noteq> []"
  then show "fetch_user_contributions up u1 start_date end_date (Some token) =
       fetch_user_contributions up u2 start_date end_date (Some token)"
    using graphql_ignores_user[of up u1 start_date end_date token u2]
    by (simp add: authenticated_is_graphql)
next
  fix r
  assume "token \<noteq> []"
    and "fetch_user_contributions up u1 start_date end_date (Some token) = Inr r"
  then have "fetch_with_graphql up u1 start_date end_date token = Inr r"
    by (simp add: authenticated_is_graphql)
  then show "\<exists>v. post_query up token start_date end_date = Inr (GraphqlData v) \<and>
             username r = v_login v \<and> avatarUrl r = v_avatarUrl v \<and> bio r = v_bio v \<and>
             company r = v_company v \<and> location r = v_location v \<and>
             followers r = Some (v_followers v) \<and> following r = Some (v_following v) \<and>
             totalRepos r = Some (v_repos_totalCount v) \<and>
             totalContributions r = Some (v_calendar_totalContributions v) \<and>
             totalCommits r = Some (v_totalCommitContributions v) \<and>
             dailyContributions r = Some (daily_of_calendar (v_calendar_weeks v)) \<and>
             repositoryContributions r =
               Some (sorted_desc rc_count
                       (repo_contributions_of (v_commitContributionsByRepository v))) \<and>
             languageStats r = Some (language_stats (v_repos_nodes v)) \<and>
             organizations r = Some (v_organizations v)"
    by (rule graphql_owner_fields)
qed

theorem authenticated_fetch_ignores_subject_witness:
  "fetch_user_contributions (upstream_of sample_viewer sample_events) ''someone-else''
       (2024, 1, 1) (2024, 12, 31) (Some ''tok'') =
     fetch_user_contributions (upstream_of sample_viewer sample_events) ''octocat''
       (2024, 1, 1) (2024, 12, 31) (Some ''tok'')
   \<and> (\<exists>r. fetch_user_contributions (upstream_of sample_viewer sample_events) ''someone-else''
             (2024, 1, 1) (2024, 12, 31) (Some ''tok'') = Inr r \<and>
           username r = Some ''octocat'')"
proof -
  let ?up = "upstream_of sample_viewer sample_events"
  let ?f = "fetch_user_contributions ?up ''someone-else'' (2024, 1, 1) (2024, 12, 31) (Some ''tok'')"
  have ne: "''tok'' \<noteq> []" by simp
  have rd: "returned_dates ?f = Some [(2024, 1, 1), (2024, 1, 2)]" by code_simp
  then obtain r where r: "?f = Inr r" by (cases ?f) (auto simp: returned_dates_def)
  have q: "post_query ?up ''tok'' (2024, 1, 1) (2024, 12, 31) = Inr (GraphqlData sample_viewer)"
    by (simp add: upstream_of_def)
  from authenticated_fetch_ignores_subject
    [OF ne, of ?up "''someone-else''" "(2024, 1, 1)" "(2024, 12, 31)" "''octocat''"] r q
  have "?f = fetch_user_contributions ?up ''octocat'' (2024, 1, 1) (2024, 12, 31) (Some ''tok'')"
    and "username r = v_login sample_viewer" by auto
  then show ?thesis using r by (auto simp: sample_viewer_def)
qed






section \<open>Claims about the request handler\<close>

text \<open>
  C1.  For a request that finds a cached record for (subject, year): when the freshness probe
  raises, returns no timestamp, or returns a timestamp not newer than the record's
  \<^verbatim>\<open>updated_at\<close>, the answer is the cached record unchanged, tagged \<^verbatim>\<open>cached = True\<close>, the
  tables are untouched and the only upstream call is the probe.  When the probe returns a
  strictly newer timestamp, the cached record is deleted and the full fetch is called on the
  table without it: if fetch and streak computation succeed, the new record is stored and
  the answer is tagged \<^verbatim>\<open>cached = False\<close>; otherwise the answer is the error.
\<close>

theorem cached_request:
  "resolve_token d user token0 = Inr token \<Longrightarrow> select_stats d user year = [row] \<Longrightarrow>
   ((fetch_user_latest_push_time up user token = Inl e \<or>
     fetch_user_latest_push_time up user token = Inr None \<or>
     (fetch_user_latest_push_time up user token = Inr (Some latest) \<and> latest \<le> ys_updated_at row))
    \<longrightarrow> get_yearbook_stats up now d user year token0 =
          (Inr \<lparr>body = ys_columns.truncate row, cached = True\<rparr>, d, [Probe user token]))
   \<and> (fetch_user_latest_push_time up user token = Inr (Some latest) \<and> ys_updated_at row < latest
    \<longrightarrow> (\<exists>res d'.
          get_yearbook_stats up now d user year token0 =
            (res, d', [Probe user token, Fetch user (year, 1, 1) (year, 12, 31) token]) \<and>
          fetch_and_store up now
            (d\<lparr>tbl_yearbook_stats := remove1 row (tbl_yearbook_stats d)\<rparr>) user year token =
            (res, d') \<and>
          select_stats (d\<lparr>tbl_yearbook_stats := remove1 row (tbl_yearbook_stats d)\<rparr>) user year = [] \<and>
          (\<forall>err. res = Inl err \<longrightarrow> select_stats d' user year = []) \<and>
          (\<forall>resp. res = Inr resp \<longrightarrow> \<not> cached resp \<and>
             (\<exists>new. select_stats d' user year = [new] \<and>
                    tbl_yearbook_stats d' = remove1 row (tbl_yearbook_stats d) @ [new] \<and>
                    body resp = ys_columns.truncate new \<and> ys_updated_at new = now)) \<and>
          (\<forall>data l c n.
             fetch_user_contributions up user (year, 1, 1) (year, 12, 31) token = Inr data \<and>
             calculate_streaks year
               (case dailyContributions data of None \<Rightarrow> [] | Some ds \<Rightarrow> ds) = Inr (l, c, n)
             \<longrightarrow> (\<exists>resp. res = Inr resp \<and> \<not> cached resp \<and>
                    ys_longest_streak (body resp) = l \<and> ys_current_streak (body resp) = c))))"
proof (intro conjI impI)
  assume tok: "resolve_token d user token0 = Inr token" and sel: "select_stats d user year = [row]"
  assume "fetch_user_latest_push_time up user token = Inl e \<or>
     fetch_user_latest_push_time up user token = Inr None \<or>
     (fetch_user_latest_push_time up user token = Inr (Some latest) \<and> latest \<le> ys_updated_at row)"
  then have "cache_is_valid up user token row"
    by (auto simp: cache_is_valid_def)
  from get_stats_hit[OF tok sel this]
  show "get_yearbook_stats up now d user year token0 =
          (Inr \<lparr>body = ys_columns.truncate row, cached = True\<rparr>, d, [Probe user token])" .
next
  assume tok: "resolve_token d user token0 = Inr token" and sel: "select_stats d user year = [row]"
  assume "fetch_user_latest_push_time up user token = Inr (Some latest) \<and> ys_updated_at row < latest"
  then have stale: "\<not> cache_is_valid up user token row"
    by (auto simp: cache_is_valid_def)
  let ?d1 = "d\<lparr>tbl_yearbook_stats := remove1 row (tbl_yearbook_stats d)\<rparr>"
  obtain res d' where fs: "fetch_and_store up now ?d1 user year token = (res, d')"
    by (cases "fetch_and_store up now ?d1 user year token")
  have gone: "select_stats ?d1 user year = []" using sel by (rule select_stats_removed)
  note out = stored_outcome[OF fs gone]
  have ok: "\<forall>data l c n.
             fetch_user_contributions up user (year, 1, 1) (year, 12, 31) token = Inr data \<and>
             calculate_streaks year
               (case dailyContributions data of None \<Rightarrow> [] | Some ds \<Rightarrow> ds) = Inr (l, c, n)
             \<longrightarrow> (\<exists>resp. res = Inr resp \<and> \<not> cached resp \<and>
                    ys_longest_streak (body resp) = l \<and> ys_current_streak (body resp) = c)"
  proof (intro allI impI)
    fix data l c n
    assume h: "fetch_user_contributions up user (year, 1, 1) (year, 12, 31) token = Inr data \<and>
             calculate_streaks year
               (case dailyContributions data of None \<Rightarrow> [] | Some ds \<Rightarrow> ds) = Inr (l, c, n)"
    from fetch_and_store_ok[OF conjunct1[OF h] conjunct2[OF h], of now ?d1] fs
    obtain resp where "res = Inr resp" "ys_longest_streak (body resp) = l"
      "ys_current_streak (body resp) = c" by auto
    with out show "\<exists>resp. res = Inr resp \<and> \<not> cached resp \<and>
                    ys_longest_streak (body resp) = l \<and> ys_current_streak (body resp) = c"
      by auto
  qed
  from get_stats_stale[OF tok sel stale fs] fs gone out ok
  show "\<exists>res d'.
          get_yearbook_stats up now d user year token0 =
            (res, d', [Probe user token, Fetch user (year, 1, 1) (year, 12, 31) token]) \<and>
          fetch_and_store up now ?d1 user year token = (res, d') \<and>
          select_stats ?d1 user year = [] \<and>
          (\<forall>err. res = Inl err \<longrightarrow> select_stats d' user year = []) \<and>
          (\<forall>resp. res = Inr resp \<longrightarrow> \<not> cached resp \<and>
             (\<exists>new. select_stats d' user year = [new] \<and>
                    tbl_yearbook_stats d' = remove1 row (tbl_yearbook_stats d) @ [new] \<and>
                    body resp = ys_columns.truncate new \<and> ys_updated_at new = now)) \<and>
          (\<forall>data l c n.
             fetch_user_contributions up user (year, 1, 1) (year, 12, 31) token = Inr data \<and>
             calculate_streaks year
               (case dailyContributions data of None \<Rightarrow> [] | Some ds \<Rightarrow> ds) = Inr (l, c, n)
             \<longrightarrow> (\<exists>resp. res = Inr resp \<and> \<not> cached resp \<and>
                    ys_longest_streak (body resp) = l \<and> ys_current_streak (body resp) = c))"
    by (intro exI[of _ res] exI[of _ d']) simp
qed

theorem cached_request_witness:
  "get_yearbook_stats network_down ((2024, 6, 1), 0) sample_db ''octocat'' 2024 None =
     (Inr \<lparr>body = ys_columns.truncate sample_row, cached = True\<rparr>, sample_db,
      [Probe ''octocat'' None])
   \<and> (\<exists>resp d'. get_yearbook_stats (upstream_of sample_viewer sample_events) ((2024, 6, 1), 0)
                    sample_db ''octocat'' 2024 None =
                  (Inr resp, d',
                   [Probe ''octocat'' None, Fetch ''octocat'' (2024, 1, 1) (2024, 12, 31) None]) \<and>
                \<not> cached resp \<and> ys_longest_streak (body resp) = 2 \<and>
                ys_current_streak (body resp) = 0)"
proof -
  let ?now = "((2024, 6, 1), 0) :: datetime"
  let ?up = "upstream_of sample_viewer sample_events"
  have tok: "resolve_token sample_db ''octocat'' None = Inr None" by code_simp
  have sel: "select_stats sample_db ''octocat'' 2024 = [sample_row]" by code_simp
  have p1: "fetch_user_latest_push_time network_down ''octocat'' None = Inl (NetworkError ''down'')"
    by code_simp
  have p2: "fetch_user_latest_push_time ?up ''octocat'' None = Inr (Some ((2024, 3, 2), 3600000000))"
    by code_simp
  have newer: "ys_updated_at sample_row < ((2024, 3, 2), 3600000000)" by code_simp
  have f: "(case fetch_user_contributions ?up ''octocat'' (2024, 1, 1) (2024, 12, 31) None of
              Inl e \<Rightarrow> False
            | Inr data \<Rightarrow>
                calculate_streaks 2024
                  (case dailyContributions data of None \<Rightarrow> [] | Some ds \<Rightarrow> ds) = Inr (2, 0, 2))"
    by code_simp
  then obtain data where
    d1: "fetch_user_contributions ?up ''octocat'' (2024, 1, 1) (2024, 12, 31) None = Inr data"
    and d2: "calculate_streaks 2024
               (case dailyContributions data of None \<Rightarrow> [] | Some ds \<Rightarrow> ds) = Inr (2, 0, 2)"
    by (cases "fetch_user_contributions ?up ''octocat'' (2024, 1, 1) (2024, 12, 31) None") auto
  from cached_request [OF tok sel, where up = network_down and e = "NetworkError ''down''"
      and latest = "((2024, 3, 2), 0)" and now = ?now] p1
  have a: "get_yearbook_stats network_down ?now sample_db ''octocat'' 2024 None =
     (Inr \<lparr>body = ys_columns.truncate sample_row, cached = True\<rparr>, sample_db,
      [Probe ''octocat'' None])"
    by blast
  have stale: "fetch_user_latest_push_time ?up ''octocat'' None = Inr (Some ((2024, 3, 2), 3600000000)) \<and>
        ys_updated_at sample_row < ((2024, 3, 2), 3600000000)"
    using p2 newer by (rule conjI)
  note b = cached_request [OF tok sel, where up = ?up and e = ValueError
      and latest = "((2024, 3, 2), 3600000000)" and now = ?now, THEN conjunct2, THEN mp, OF stale]
  from b obtain res d' where
    b': "get_yearbook_stats ?up ?now sample_db ''octocat'' 2024 None =
          (res, d', [Probe ''octocat'' None, Fetch ''octocat'' (2024, 1, 1) (2024, 12, 31) None]) \<and>
        fetch_and_store ?up ?now
          (sample_db\<lparr>tbl_yearbook_stats := remove1 sample_row (tbl_yearbook_stats sample_db)\<rparr>)
          ''octocat'' 2024 None = (res, d') \<and>
        select_stats
          (sample_db\<lparr>tbl_yearbook_stats := remove1 sample_row (tbl_yearbook_stats sample_db)\<rparr>)
          ''octocat'' 2024 = [] \<and>
        (\<forall>err. res = Inl err \<longrightarrow> select_stats d' ''octocat'' 2024 = []) \<and>
        (\<forall>resp. res = Inr resp \<longrightarrow> \<not> cached resp \<and>
           (\<exists>new. select_stats d' ''octocat'' 2024 = [new] \<and>
                  tbl_yearbook_stats d' =
                    remove1 sample_row (tbl_yearbook_stats sample_db) @ [new] \<and>
                  body resp = ys_columns.truncate new \<and> ys_updated_at new = ?now)) \<and>
        (\<forall>data l c n.
           fetch_user_contributions ?up ''octocat'' (2024, 1, 1) (2024, 12, 31) None = Inr data \<and>
           calculate_streaks 2024
             (case dailyContributions data of None \<Rightarrow> [] | Some ds \<Rightarrow> ds) = Inr (l, c, n)
           \<longrightarrow> (\<exists>resp. res = Inr resp \<and> \<not> cached resp \<and>
                  ys_longest_streak (body resp) = l \<and> ys_current_streak (body resp) = c))"
    by (elim exE)
  from b' have
    g: "get_yearbook_stats ?up ?now sample_db ''octocat'' 2024 None =
          (res, d', [Probe ''octocat'' None, Fetch ''octocat'' (2024, 1, 1) (2024, 12, 31) None])"
    by (rule conjunct1)
  from b' have ok: "\<forall>data l c n.
           fetch_user_contributions ?up ''octocat'' (2024, 1, 1) (2024, 12, 31) None = Inr data \<and>
           calculate_streaks 2024
             (case dailyContributions data of None \<Rightarrow> [] | Some ds \<Rightarrow> ds) = Inr (l, c, n)
           \<longrightarrow> (\<exists>resp. res = Inr resp \<and> \<not> cached resp \<and>
                  ys_longest_streak (body resp) = l \<and> ys_current_streak (body resp) = c)"
    by (elim conjE)
  from ok[rule_format, OF conjI[OF d1 d2]] obtain resp where "res = Inr resp" "\<not> cached resp"
    "ys_longest_streak (body resp) = 2" "ys_current_streak (body resp) = 0" by (elim exE conjE)
  with g a show ?thesis by blast
qed

text \<open>
  C6.  When the full fetch raises, on a plain miss or after a stale record has been deleted,
  the request fails with the error (as \<^verbatim>\<open>HTTPException(400, str(e))\<close>), nothing is inserted,
  and the stale record stays deleted: the tables hold no record for (subject, year), so that
  the next request for it calls the fetch again.
\<close>

theorem failed_fetch_leaves_key_absent:
  "resolve_token d user token0 = Inr token \<Longrightarrow>
   fetch_user_contributions up user (year, 1, 1) (year, 12, 31) token = Inl e \<Longrightarrow>
   (select_stats d user year = [] \<longrightarrow>
      get_yearbook_stats up now d user year token0 =
        (Inl (HTTPException 400 e), d, [Fetch user (year, 1, 1) (year, 12, 31) token]))
   \<and> (select_stats d user year = [row] \<and>
       fetch_user_latest_push_time up user token = Inr (Some latest) \<and> ys_updated_at row < latest \<longrightarrow>
      get_yearbook_stats up now d user year token0 =
        (Inl (HTTPException 400 e),
         d\<lparr>tbl_yearbook_stats := remove1 row (tbl_yearbook_stats d)\<rparr>,
         [Probe user token, Fetch user (year, 1, 1) (year, 12, 31) token]) \<and>
      select_stats (d\<lparr>tbl_yearbook_stats := remove1 row (tbl_yearbook_stats d)\<rparr>) user year = [] \<and>
      row \<notin> set (remove1 row (tbl_yearbook_stats d)) \<and>
      snd (snd (get_yearbook_stats up' now'
                  (d\<lparr>tbl_yearbook_stats := remove1 row (tbl_yearbook_stats d)\<rparr>)
                  user year token0)) =
        [Fetch user (year, 1, 1) (year, 12, 31) token])"
proof (intro conjI impI)
  assume tok: "resolve_token d user token0 = Inr token"
    and h: "select_stats d user year = [row] \<and>
       fetch_user_latest_push_time up user token = Inr (Some latest) \<and> ys_updated_at row < latest"
  from h have "select_stats (d\<lparr>tbl_yearbook_stats := remove1 row (tbl_yearbook_stats d)\<rparr>) user year = []"
    by (simp add: select_stats_removed)
  from later_request_refetches[OF tok this]
  show "snd (snd (get_yearbook_stats up' now'
                  (d\<lparr>tbl_yearbook_stats := remove1 row (tbl_yearbook_stats d)\<rparr>)
                  user year token0)) =
        [Fetch user (year, 1, 1) (year, 12, 31) token]" by simp
next
  assume tok: "resolve_token d user token0 = Inr token"
    and f: "fetch_user_contributions up user (year, 1, 1) (year, 12, 31) token = Inl e"
    and miss: "select_stats d user year = []"
  from get_stats_miss[OF tok miss fetch_and_store_fail[OF f]]
  show "get_yearbook_stats up now d user year token0 =
        (Inl (HTTPException 400 e), d, [Fetch user (year, 1, 1) (year, 12, 31) token])" .
next
  assume tok: "resolve_token d user token0 = Inr token"
    and f: "fetch_user_contributions up user (year, 1, 1) (year, 12, 31) token = Inl e"
    and h: "select_stats d user year = [row] \<and>
       fetch_user_latest_push_time up user token = Inr (Some latest) \<and> ys_updated_at row < latest"
  from h have sel: "select_stats d user year = [row]" by blast
  from h have stale: "\<not> cache_is_valid up user token row"
    by (auto simp: cache_is_valid_def)
  from get_stats_stale[OF tok sel stale fetch_and_store_fail[OF f]]
  show "get_yearbook_stats up now d user year token0 =
        (Inl (HTTPException 400 e),
         d\<lparr>tbl_yearbook_stats := remove1 row (tbl_yearbook_stats d)\<rparr>,
         [Probe user token, Fetch user (year, 1, 1) (year, 12, 31) token])" .
next
  assume h: "select_stats d user year = [row] \<and>
       fetch_user_latest_push_time up user token = Inr (Some latest) \<and> ys_updated_at row < latest"
  then show "select_stats (d\<lparr>tbl_yearbook_stats := remove1 row (tbl_yearbook_stats d)\<rparr>) user year = []"
    by (simp add: select_stats_removed)
next
  assume h: "select_stats d user year = [row] \<and>
       fetch_user_latest_push_time up user token = Inr (Some latest) \<and> ys_updated_at row < latest"
  then have sel: "select_stats d user year = [row]" by blast
  then have "row \<in> set (select_stats d user year)" by simp
  then have key: "ys_username row = user \<and> ys_year row = year" by (simp add: select_stats_def)
  have "select_stats (d\<lparr>tbl_yearbook_stats := remove1 row (tbl_yearbook_stats d)\<rparr>) user year = []"
    using sel by (rule select_stats_removed)
  then have "\<forall>r\<in>set (remove1 row (tbl_yearbook_stats d)). \<not> (ys_username r = user \<and> ys_year r = year)"
    by (simp add: select_stats_def filter_empty_conv)
  with key show "row \<notin> set (remove1 row (tbl_yearbook_stats d))" by blast
qed

theorem failed_fetch_leaves_key_absent_witness:
  "get_yearbook_stats fetch_down ((2024, 6, 1), 0) sample_db ''octocat'' 2024 None =
     (Inl (HTTPException 400 (NetworkError ''down'')),
      sample_db\<lparr>tbl_yearbook_stats := remove1 sample_row (tbl_yearbook_stats sample_db)\<rparr>,
      [Probe ''octocat'' None, Fetch ''octocat'' (2024, 1, 1) (2024, 12, 31) None])
   \<and> select_stats
        (sample_db\<lparr>tbl_yearbook_stats := remove1 sample_row (tbl_yearbook_stats sample_db)\<rparr>)
        ''octocat'' 2024 = []
   \<and> get_yearbook_stats fetch_down ((2024, 6, 1), 0) sample_db ''octocat'' 2023 None =
     (Inl (HTTPException 400 (NetworkError ''down'')), sample_db,
      [Fetch ''octocat'' (2023, 1, 1) (2023, 12, 31) None])"
proof -
  have tok: "resolve_token sample_db ''octocat'' None = Inr None" by code_simp
  have sel: "select_stats sample_db ''octocat'' 2024 = [sample_row]" by code_simp
  have miss: "select_stats sample_db ''octocat'' 2023 = []" by code_simp
  have p: "fetch_user_latest_push_time fetch_down ''octocat'' None =
             Inr (Some ((2024, 3, 2), 3600000000))" by code_simp
  have newer: "ys_updated_at sample_row < ((2024, 3, 2), 3600000000)" by code_simp
  have f: "fetch_user_contributions fetch_down ''octocat'' (2024, 1, 1) (2024, 12, 31) None =
             Inl (NetworkError ''down'')" by code_simp
  have f': "fetch_user_contributions fetch_down ''octocat'' (2023, 1, 1) (2023, 12, 31) None =
             Inl (NetworkError ''down'')" by code_simp
  from failed_fetch_leaves_key_absent [OF tok f, where row = sample_row
      and latest = "((2024, 3, 2), 3600000000)" and now = "((2024, 6, 1), 0)"] sel p newer
  have a: "get_yearbook_stats fetch_down ((2024, 6, 1), 0) sample_db ''octocat'' 2024 None =
     (Inl (HTTPException 400 (NetworkError ''down'')),
      sample_db\<lparr>tbl_yearbook_stats := remove1 sample_row (tbl_yearbook_stats sample_db)\<rparr>,
      [Probe ''octocat'' None, Fetch ''octocat'' (2024, 1, 1) (2024, 12, 31) None])"
    and b: "select_stats
        (sample_db\<lparr>tbl_yearbook_stats := remove1 sample_row (tbl_yearbook_stats sample_db)\<rparr>)
        ''octocat'' 2024 = []"
    by blast+
  from failed_fetch_leaves_key_absent [OF tok f', where row = sample_row
      and latest = "((2024, 3, 2), 3600000000)" and now = "((2024, 6, 1), 0)"] miss
  have c: "get_yearbook_stats fetch_down ((2024, 6, 1), 0) sample_db ''octocat'' 2023 None =
     (Inl (HTTPException 400 (NetworkError ''down'')), sample_db,
      [Fetch ''octocat'' (2023, 1, 1) (2023, 12, 31) None])"
    by blast
  from a b c show ?thesis by blast
qed



end
